theory Spec2Isabelle
  imports Main "HOL-Library.AList" "HOL-Library.Multiset"
begin

section \<open>The state factory of \<^verbatim>\<open>src/lib/index.js\<close>\<close>

text \<open>
  The module keeps a registry \<^verbatim>\<open>states\<close> of resolved state records, a \<^verbatim>\<open>queue\<close> of
  declarations waiting for their parent, and the \<^verbatim>\<open>root\<close> record. Records refer to each
  other (\<^verbatim>\<open>parent\<close>, \<^verbatim>\<open>navigable\<close>, \<^verbatim>\<open>path\<close>) and to themselves, so a reference to a record
  is modelled by the key under which the record is stored in \<^verbatim>\<open>states\<close>: a record is stored
  once under its own name, and no key is ever overwritten or removed.

  Exceptions are values of type \<open>error\<close>; a function that mutates the factory returns the
  factory next to its result, also when it throws, since what was stored before the throw
  stays stored.

  An object used as a dictionary is the list of its own properties, in the order in which
  the keys were added. The dictionaries that a builder fills (\<^verbatim>\<open>paramNames\<close>, \<^verbatim>\<open>includes\<close>,
  \<^verbatim>\<open>data\<close>) are read and written as the language does it for an object literal: a read
  falls back to \<^verbatim>\<open>Object.prototype\<close>, a write to \<^verbatim>\<open>__proto__\<close> adds no key, and where the
  builder collects the keys (\<^verbatim>\<open>ownParams\<close>) they come with the array indices first. Every
  key of \<^verbatim>\<open>views\<close> holds an \<^verbatim>\<open>@\<close>, which no inherited member has. The registry \<^verbatim>\<open>states\<close> and the \<^verbatim>\<open>queue\<close> (an
  array) are finite maps, which is what they are as long as no key is the name of a
  member that they inherit: the factories built that way are the \<open>modelled\<close> ones below,
  and what is proved of a registry at large is proved of them.
  Strings are lists of \<open>char\<close>: the strings whose code units are below 256.
\<close>

subsection \<open>Errors\<close>

datatype error =
    InvalidName                             \<comment> \<open>\<^verbatim>\<open>State must have a valid name\<close>\<close>
  | DuplicateState string                   \<comment> \<open>\<^verbatim>\<open>State '..'' is already defined\<close>\<close>
  | InvalidUrl                              \<comment> \<open>\<^verbatim>\<open>Invalid url '..' in state '..'\<close>\<close>
  | InvalidParams                           \<comment> \<open>\<^verbatim>\<open>Invalid params in state '..'\<close>\<close>
  | ConflictingParamsAndUrl                 \<comment> \<open>\<^verbatim>\<open>Both params and url specicified in state '..'\<close>\<close>
  | MissingRequiredParameter string string  \<comment> \<open>parameter, state name\<close>
  | NoReferencePoint string                 \<comment> \<open>\<^verbatim>\<open>No reference point given for path '..'\<close>\<close>
  | InvalidRelativePath string string       \<comment> \<open>path, name of the base\<close>
  | TypeError string                        \<comment> \<open>a property read or written on \<^verbatim>\<open>undefined\<close> or \<^verbatim>\<open>null\<close>\<close>
  | ReferenceError string                   \<comment> \<open>an identifier with no binding\<close>
  | DanglingReference string                \<comment> \<open>model only: a key that is not in \<^verbatim>\<open>states\<close>\<close>

subsection \<open>The URL matcher collaborator\<close>

text \<open>
  \<^verbatim>\<open>slyn-url-matcher-factory\<close> is an external package. Its operations are a parameter of the
  model: \<^verbatim>\<open>compile(pattern)\<close>, \<^verbatim>\<open>matcher.concat(pattern)\<close> and \<^verbatim>\<open>matcher.parameters()\<close>, over an
  arbitrary type \<open>'m\<close> of matchers. \<^verbatim>\<open>isMatcher\<close> holds of exactly the values of that type.
\<close>

record 'm matcher_ops =
  compile :: "string \<Rightarrow> 'm"
  mconcat :: "'m \<Rightarrow> string \<Rightarrow> 'm"
  parameters :: "'m \<Rightarrow> string list"

subsection \<open>Declarations and records\<close>

text \<open>
  A declaration is the object handed to \<^verbatim>\<open>registerState\<close>. The fields the code reads:
  \<^verbatim>\<open>name\<close> (\<open>None\<close>: not a string), \<^verbatim>\<open>parent\<close> (\<open>None\<close>: not given), \<^verbatim>\<open>url\<close>, \<^verbatim>\<open>data\<close> (\<open>None\<close>: not
  given), \<^verbatim>\<open>params\<close>, \<^verbatim>\<open>views\<close>, \<^verbatim>\<open>abstract\<close> and \<^verbatim>\<open>self\<close> (\<open>Some i\<close>: the object with identity
  \<open>i\<close>; \<open>None\<close>: not given). A parent is declared by its name. A declaration is a
  value: what the builders write onto the declaration object before one of them throws is
  not kept.
\<close>

datatype 'm url_decl =
    UAbsent | UNull | UStr string | UMatcher 'm
  | UOther  \<comment> \<open>neither a string, nor a matcher, nor \<^verbatim>\<open>null\<close>/\<^verbatim>\<open>undefined\<close>\<close>

datatype params_decl =
    PAbsent      \<comment> \<open>not given, or any falsy value\<close>
  | PArr "string list"
  | PNotArray    \<comment> \<open>a truthy value that is not an array\<close>

datatype views_decl = VAbsent | VNull | VMap "(string \<times> string) list"

datatype view =
    ViewState string   \<comment> \<open>the default unnamed view: the state itself\<close>
  | ViewConfig string

record 'm decl =
  d_name :: "string option"
  d_parent :: "string option"
  d_url :: "'m url_decl"
  d_data :: "(string \<times> string) list option"
  d_params :: params_decl
  d_views :: views_decl
  d_abstract :: "bool option"
  d_self :: "nat option"

record 'm state =
  name :: string
  parent :: "string option"
  data :: "(string \<times> string) list option"
  url :: "'m option"
  navigable :: "string option"
  params :: "string list"
  views :: "(string \<times> view) list"
  ownParams :: "string list"
  path :: "string list"
  includes_map :: "(string \<times> bool) list"
  abstract :: "bool option"
  self :: "nat option"

record 'm factory =
  states :: "string \<rightharpoonup> 'm state"
  queue :: "(string \<times> 'm decl list) list"
  root :: "string option"

subsection \<open>Strings\<close>

fun lastIndexOf :: "char \<Rightarrow> string \<Rightarrow> nat option" where
  "lastIndexOf c [] = None"
| "lastIndexOf c (x # xs) =
     (case lastIndexOf c xs of
        Some i \<Rightarrow> Some (Suc i)
      | None \<Rightarrow> if x = c then Some 0 else None)"

fun split :: "char \<Rightarrow> string \<Rightarrow> string list" where
  "split c [] = [[]]"
| "split c (x # xs) =
     (if x = c then [] # split c xs
      else (case split c xs of [] \<Rightarrow> [[x]] | s # ss \<Rightarrow> (x # s) # ss))"

fun join :: "string \<Rightarrow> string list \<Rightarrow> string" where
  "join sep [] = []"
| "join sep [s] = s"
| "join sep (s # t # ss) = s @ sep @ join sep (t # ss)"

text \<open>
  \<^verbatim>\<open>/^(.+)\.[^.]+$/.exec(name)\<close>: the text before the last dot, when it is not empty, holds no
  line terminator (which \<^verbatim>\<open>.\<close> does not match) and something follows the dot.
\<close>

definition lineTerminator :: "char \<Rightarrow> bool" where
  "lineTerminator c = (c = CHR 0x0A \<or> c = CHR 0x0D)"

definition compositeName :: "string \<Rightarrow> string option" where
  "compositeName n =
     (case lastIndexOf CHR ''.'' n of
        None \<Rightarrow> None
      | Some i \<Rightarrow>
          if take i n = [] then None
          else if drop (Suc i) n = [] then None
          else if list_ex lineTerminator (take i n) then None
          else Some (take i n))"

definition isRelative :: "string \<Rightarrow> bool" where
  "isRelative stateName = (case stateName of [] \<Rightarrow> False | c # _ \<Rightarrow> c = CHR ''.'' \<or> c = CHR ''^'')"

subsection \<open>Objects as dictionaries\<close>

text \<open>
  The names of the members of \<^verbatim>\<open>Object.prototype\<close>, which every object literal inherits, and
  of the further members that an array has or inherits from \<^verbatim>\<open>Array.prototype\<close> (ECMAScript
  2023 with its Annex B; a program that adds members to these prototypes is outside the
  model).
\<close>

definition objectPrototype :: "string list" where
  "objectPrototype =
     [''constructor'', ''hasOwnProperty'', ''isPrototypeOf'', ''propertyIsEnumerable'',
      ''toLocaleString'', ''toString'', ''valueOf'', ''__proto__'', ''__defineGetter__'',
      ''__defineSetter__'', ''__lookupGetter__'', ''__lookupSetter__'']"

definition arrayPrototype :: "string list" where
  "arrayPrototype =
     [''length'', ''at'', ''concat'', ''copyWithin'', ''entries'', ''every'', ''fill'', ''filter'',
      ''find'', ''findIndex'', ''findLast'', ''findLastIndex'', ''flat'', ''flatMap'', ''forEach'',
      ''includes'', ''indexOf'', ''join'', ''keys'', ''lastIndexOf'', ''map'', ''pop'', ''push'',
      ''reduce'', ''reduceRight'', ''reverse'', ''shift'', ''slice'', ''some'', ''sort'', ''splice'',
      ''toReversed'', ''toSorted'', ''toSpliced'', ''unshift'', ''values'', ''with'']"

definition inheritedByObject :: "string \<Rightarrow> bool" where
  "inheritedByObject k = (k \<in> set objectPrototype)"

text \<open>A key under which an object and an array hold what was stored there and nothing else.\<close>

definition plainKey :: "string \<Rightarrow> bool" where
  "plainKey k = (k \<notin> set objectPrototype \<and> k \<notin> set arrayPrototype)"

text \<open>
  \<^verbatim>\<open>obj[k] = v\<close> on an object literal, for a value \<open>v\<close> that is not an object: the setter
  of \<^verbatim>\<open>__proto__\<close> ignores it, any other key becomes or stays an own property.
\<close>

definition assign :: "string \<Rightarrow> 'v \<Rightarrow> (string \<times> 'v) list \<Rightarrow> (string \<times> 'v) list" where
  "assign k v obj = (if k = ''__proto__'' then obj else AList.update k v obj)"

text \<open>
  Whether \<^verbatim>\<open>obj[k]\<close> is truthy, for an object literal that holds booleans: the own property
  when there is one, else the inherited member, a function or an object.
\<close>

definition truthy :: "(string \<times> bool) list \<Rightarrow> string \<Rightarrow> bool" where
  "truthy obj k = (case map_of obj k of Some b \<Rightarrow> b | None \<Rightarrow> inheritedByObject k)"

text \<open>
  The order in which the own properties are enumerated: the keys that are array indices
  (the decimal numerals below \<^verbatim>\<open>4294967295\<close>, without a leading zero) in ascending order, then the
  other keys in the order in which they were added.
\<close>

definition digitValue :: "char \<Rightarrow> int option" where
  "digitValue = map_of (zip ''0123456789'' [0, 1, 2, 3, 4, 5, 6, 7, 8, 9])"

definition decimal :: "string \<Rightarrow> int option" where
  "decimal s =
     (if s = [] then None
      else fold (\<lambda>c acc. case acc of
                            None \<Rightarrow> None
                          | Some a \<Rightarrow> (case digitValue c of None \<Rightarrow> None | Some d \<Rightarrow> Some (10 * a + d)))
             s (Some 0))"

definition arrayIndex :: "string \<Rightarrow> int option" where
  "arrayIndex k =
     (case decimal k of
        None \<Rightarrow> None
      | Some i \<Rightarrow> if (take 1 k = ''0'' \<and> k \<noteq> ''0'') \<or> 4294967295 \<le> i then None else Some i)"

definition ownEntries :: "(string \<times> 'v) list \<Rightarrow> (string \<times> 'v) list" where
  "ownEntries obj =
     sort_key (\<lambda>(k, v). case arrayIndex k of Some i \<Rightarrow> i | None \<Rightarrow> 0)
       (filter (\<lambda>(k, v). arrayIndex k \<noteq> None) obj)
     @ filter (\<lambda>(k, v). arrayIndex k = None) obj"

subsection \<open>\<^verbatim>\<open>findState\<close>\<close>

text \<open>
  The first argument of \<^verbatim>\<open>findState\<close> is a string or an object with a \<^verbatim>\<open>name\<close>: the record
  stored under a key, or another object, known by its identity.
\<close>

datatype ref =
    ByName string
  | ByRecord string       \<comment> \<open>the record stored under this key\<close>
  | ByObject nat string   \<comment> \<open>another object: its identity and its \<^verbatim>\<open>name\<close>\<close>

text \<open>The \<^verbatim>\<open>for\<close> loop of \<^verbatim>\<open>findState\<close> over the segments \<^verbatim>\<open>rel\<close>, from index \<^verbatim>\<open>i\<close>.\<close>

function walk ::
  "'m factory \<Rightarrow> string \<Rightarrow> 'm state \<Rightarrow> string list \<Rightarrow> nat \<Rightarrow> 'm state \<Rightarrow> error + nat \<times> 'm state"
where
  "walk f nm base rel i current =
     (if i < length rel then
        if rel ! i = [] \<and> i = 0 then walk f nm base rel (Suc i) base
        else if rel ! i = ''^'' then
          (case parent current of
             None \<Rightarrow> Inl (InvalidRelativePath nm (name base))
           | Some k \<Rightarrow>
               (case states f k of
                  None \<Rightarrow> Inl (DanglingReference k)
                | Some p \<Rightarrow> walk f nm base rel (Suc i) p))
        else Inr (i, current)
      else Inr (i, current))"
  by pat_completeness auto
termination
  by (relation "measure (\<lambda>(f, nm, base, rel, i, current). length rel - i)") auto

definition refName :: "ref \<Rightarrow> string" where
  "refName r = (case r of ByName n \<Rightarrow> n | ByRecord k \<Rightarrow> k | ByObject i n \<Rightarrow> n)"

definition isStr :: "ref \<Rightarrow> bool" where
  "isStr r = (case r of ByName n \<Rightarrow> True | ByRecord k \<Rightarrow> False | ByObject i n \<Rightarrow> False)"

text \<open>\<^verbatim>\<open>state === stateOrName || state.self === stateOrName\<close>, for the record found under \<open>k\<close>.\<close>

definition sameObject :: "string \<Rightarrow> 'm state \<Rightarrow> ref \<Rightarrow> bool" where
  "sameObject k st r =
     (case r of ByName n \<Rightarrow> False | ByRecord k' \<Rightarrow> k = k' | ByObject i n \<Rightarrow> self st = Some i)"

definition absoluteName ::
  "'m factory \<Rightarrow> string \<Rightarrow> 'm state option \<Rightarrow> error + string" where
  "absoluteName f nm base =
     (if isRelative nm then
        (case base of
           None \<Rightarrow> Inl (NoReferencePoint nm)
         | Some b \<Rightarrow>
             (case walk f nm b (split CHR ''.'' nm) 0 b of
                Inl e \<Rightarrow> Inl e
              | Inr (i, current) \<Rightarrow>
                  (let rel = join ''.'' (drop i (split CHR ''.'' nm))
                   in Inr (name current @ (if name current \<noteq> [] \<and> rel \<noteq> [] then ''.'' else []) @ rel))))
      else Inr nm)"

definition findState ::
  "'m factory \<Rightarrow> ref \<Rightarrow> 'm state option \<Rightarrow> error + 'm state option" where
  "findState f stateOrName base =
     (case absoluteName f (refName stateOrName) base of
        Inl e \<Rightarrow> Inl e
      | Inr nm \<Rightarrow>
          (case states f nm of
             None \<Rightarrow> Inr None
           | Some st \<Rightarrow>
               if isStr stateOrName \<or> sameObject nm st stateOrName then Inr (Some st)
               else Inr None))"

subsection \<open>The builders of \<^verbatim>\<open>stateBuilder\<close>\<close>

text \<open>
  \<^verbatim>\<open>registerState\<close> runs the builders in the order of the keys of \<^verbatim>\<open>stateBuilder\<close>, each
  writing its result onto the declaration, so that a later builder reads the results of
  the earlier ones. Here each builder takes what it reads: the declaration \<open>d\<close>, its name
  \<open>n\<close>, the parent record \<open>p\<close> that the first builder found (\<open>None\<close>: \<^verbatim>\<open>undefined\<close>), and
  the fields resolved so far.
\<close>

definition rootRecord :: "'m factory \<Rightarrow> 'm state option" where
  "rootRecord f = (case root f of None \<Rightarrow> None | Some k \<Rightarrow> states f k)"

definition stateBuilder_parent ::
  "'m factory \<Rightarrow> 'm decl \<Rightarrow> string \<Rightarrow> error + 'm state option" where
  "stateBuilder_parent f d n =
     (if d_parent d \<noteq> None \<and> d_parent d \<noteq> Some [] then findState f (ByName (the (d_parent d))) None
      else (case compositeName n of
              Some c \<Rightarrow> findState f (ByName c) None
            | None \<Rightarrow> Inr (rootRecord f)))"

text \<open>
  \<^verbatim>\<open>_.extend({}, a, b)\<close> assigns every property of \<open>a\<close>, then every property of \<open>b\<close>, to a new
  object: the keys of \<open>a\<close>, then the new keys of \<open>b\<close>; \<open>b\<close> wins.
\<close>

definition extend :: "(string \<times> 'v) list \<Rightarrow> (string \<times> 'v) list \<Rightarrow> (string \<times> 'v) list" where
  "extend a b = fold (\<lambda>(k, v). assign k v) b (fold (\<lambda>(k, v). assign k v) a [])"

text \<open>
  \<^verbatim>\<open>state.data = state.self.data = _.extend(..)\<close> writes to \<^verbatim>\<open>state.self\<close>, which
  \<^verbatim>\<open>registerState\<close> never sets: the write throws unless the declaration came with a \<^verbatim>\<open>self\<close>
  object of its own.
\<close>

definition stateBuilder_data ::
  "'m decl \<Rightarrow> 'm state option \<Rightarrow> error + (string \<times> string) list option" where
  "stateBuilder_data d p =
     (case p of
        None \<Rightarrow> Inr (d_data d)
      | Some pr \<Rightarrow>
          (case data pr of
             None \<Rightarrow> Inr (d_data d)
           | Some pd \<Rightarrow>
               (case d_self d of
                  None \<Rightarrow> Inl (TypeError ''self'')
                | Some i \<Rightarrow> Inr (Some (extend pd (case d_data d of None \<Rightarrow> [] | Some od \<Rightarrow> od))))))"

text \<open>\<^verbatim>\<open>(state.parent.navigable || self.root).url.concat(url)\<close>\<close>

definition concatBase :: "'m factory \<Rightarrow> 'm state option \<Rightarrow> error + 'm" where
  "concatBase f p =
     (case p of
        None \<Rightarrow> Inl (TypeError ''navigable'')
      | Some pr \<Rightarrow>
          (case navigable pr of
             Some k \<Rightarrow>
               (case states f k of
                  None \<Rightarrow> Inl (DanglingReference k)
                | Some nv \<Rightarrow> (case url nv of None \<Rightarrow> Inl (TypeError ''concat'') | Some m \<Rightarrow> Inr m))
           | None \<Rightarrow>
               (case rootRecord f of
                  None \<Rightarrow> Inl (TypeError ''url'')
                | Some rt \<Rightarrow> (case url rt of None \<Rightarrow> Inl (TypeError ''concat'') | Some m \<Rightarrow> Inr m))))"

definition stateBuilder_url ::
  "'m matcher_ops \<Rightarrow> 'm factory \<Rightarrow> 'm decl \<Rightarrow> 'm state option \<Rightarrow> error + 'm option" where
  "stateBuilder_url U f d p =
     (case d_url d of
        UStr u \<Rightarrow>
          (if take 1 u = ''^'' then Inr (Some (compile U (drop 1 u)))
           else (case concatBase f p of
                   Inl e \<Rightarrow> Inl e
                 | Inr m \<Rightarrow> Inr (Some (mconcat U m u))))
      | UMatcher m \<Rightarrow> Inr (Some m)
      | UNull \<Rightarrow> Inr None
      | UAbsent \<Rightarrow> Inr None
      | UOther \<Rightarrow> Inl InvalidUrl)"

definition stateBuilder_navigable ::
  "string \<Rightarrow> 'm option \<Rightarrow> 'm state option \<Rightarrow> string option" where
  "stateBuilder_navigable n u p =
     (case u of
        Some m \<Rightarrow> Some n
      | None \<Rightarrow> (case p of Some pr \<Rightarrow> navigable pr | None \<Rightarrow> None))"

text \<open>
  The \<^verbatim>\<open>params\<close> builder calls \<^verbatim>\<open>isArray\<close>. \<open>stateBuilder_params_under\<close> is the builder for a
  given binding of that identifier (\<open>None\<close>: no binding, the call throws a
  \<^verbatim>\<open>ReferenceError\<close>).
\<close>

definition stateBuilder_params_under ::
  "(params_decl \<Rightarrow> bool) option \<Rightarrow> 'm matcher_ops \<Rightarrow> 'm decl \<Rightarrow> 'm option \<Rightarrow> 'm state option \<Rightarrow>
     error + string list" where
  "stateBuilder_params_under binding U d u p =
     (case d_params d of
        PAbsent \<Rightarrow>
          (case u of
             Some m \<Rightarrow> Inr (parameters U m)
           | None \<Rightarrow> (case p of None \<Rightarrow> Inl (TypeError ''params'') | Some pr \<Rightarrow> Inr (params pr)))
      | declared \<Rightarrow>
          (case binding of
             None \<Rightarrow> Inl (ReferenceError ''isArray'')
           | Some isArray \<Rightarrow>
               if \<not> isArray declared then Inl InvalidParams
               else if u \<noteq> None then Inl ConflictingParamsAndUrl
               else Inr (case declared of PArr ps \<Rightarrow> ps | _ \<Rightarrow> [])))"

text \<open>
  The module neither declares nor imports \<^verbatim>\<open>isArray\<close> (its other predicates are reached
  through \<^verbatim>\<open>helper\<close>), and the language has no global of that name: in the module as it is,
  the identifier has no binding.
\<close>

definition isArray_global :: "(params_decl \<Rightarrow> bool) option" where
  "isArray_global = None"

definition stateBuilder_params ::
  "'m matcher_ops \<Rightarrow> 'm decl \<Rightarrow> 'm option \<Rightarrow> 'm state option \<Rightarrow> error + string list" where
  "stateBuilder_params = stateBuilder_params_under isArray_global"

text \<open>One step of the \<^verbatim>\<open>_.each\<close> of the \<^verbatim>\<open>views\<close> builder.\<close>

fun viewsLoop ::
  "'m state option \<Rightarrow> (string \<times> view) list \<Rightarrow> (string \<times> view) list \<Rightarrow> error + (string \<times> view) list"
where
  "viewsLoop p [] acc = Inr acc"
| "viewsLoop p ((vn, v) # rest) acc =
     (if CHR ''@'' \<in> set vn then viewsLoop p rest (AList.update vn v acc)
      else (case p of
              None \<Rightarrow> Inl (TypeError ''name'')
            | Some pr \<Rightarrow> viewsLoop p rest (AList.update (vn @ ''@'' @ name pr) v acc)))"

definition stateBuilder_views ::
  "'m decl \<Rightarrow> string \<Rightarrow> 'm state option \<Rightarrow> error + (string \<times> view) list" where
  "stateBuilder_views d n p =
     (case d_views d of
        VAbsent \<Rightarrow> viewsLoop p [([], ViewState n)] []
      | VNull \<Rightarrow> Inr []
      | VMap vs \<Rightarrow> viewsLoop p (map (\<lambda>(vn, c). (vn, ViewConfig c)) vs) [])"

text \<open>
  The second \<^verbatim>\<open>_.each\<close> of the \<^verbatim>\<open>ownParams\<close> builder, over the parent's parameters:
  \<^verbatim>\<open>if (!paramNames[p]) throw ..; paramNames[p] = false\<close>.
\<close>

fun requiredLoop ::
  "string \<Rightarrow> string list \<Rightarrow> (string \<times> bool) list \<Rightarrow> error + (string \<times> bool) list" where
  "requiredLoop n [] paramNames = Inr paramNames"
| "requiredLoop n (q # qs) paramNames =
     (if truthy paramNames q
      then requiredLoop n qs (assign q False paramNames)
      else Inl (MissingRequiredParameter q n))"

text \<open>
  The first \<^verbatim>\<open>_.each\<close> sets \<^verbatim>\<open>paramNames[p] = true\<close> for the parameters of the state, the
  third collects the keys of \<^verbatim>\<open>paramNames\<close> that are still \<^verbatim>\<open>true\<close>, as they are enumerated.
\<close>

definition stateBuilder_ownParams ::
  "string \<Rightarrow> string list \<Rightarrow> 'm state option \<Rightarrow> error + string list" where
  "stateBuilder_ownParams n ps p =
     (case p of
        None \<Rightarrow> Inr ps
      | Some pr \<Rightarrow>
          (case requiredLoop n (params pr) (fold (\<lambda>q. assign q True) ps []) of
             Inl e \<Rightarrow> Inl e
           | Inr paramNames \<Rightarrow> Inr (map fst (filter snd (ownEntries paramNames)))))"

definition stateBuilder_path :: "string \<Rightarrow> 'm state option \<Rightarrow> string list" where
  "stateBuilder_path n p = (case p of Some pr \<Rightarrow> path pr @ [n] | None \<Rightarrow> [])"

definition stateBuilder_includes :: "string \<Rightarrow> 'm state option \<Rightarrow> (string \<times> bool) list" where
  "stateBuilder_includes n p =
     assign n True (case p of Some pr \<Rightarrow> extend [] (includes_map pr) | None \<Rightarrow> [])"

text \<open>The loop of \<^verbatim>\<open>registerState\<close> over the builders, for a declaration named \<open>n\<close>.\<close>

definition buildState ::
  "'m matcher_ops \<Rightarrow> 'm factory \<Rightarrow> 'm decl \<Rightarrow> string \<Rightarrow> error + 'm state" where
  "buildState U f d n =
     (case stateBuilder_parent f d n of Inl e \<Rightarrow> Inl e | Inr p \<Rightarrow>
      case stateBuilder_data d p of Inl e \<Rightarrow> Inl e | Inr dt \<Rightarrow>
      case stateBuilder_url U f d p of Inl e \<Rightarrow> Inl e | Inr u \<Rightarrow>
      case stateBuilder_params U d u p of Inl e \<Rightarrow> Inl e | Inr ps \<Rightarrow>
      case stateBuilder_views d n p of Inl e \<Rightarrow> Inl e | Inr vs \<Rightarrow>
      case stateBuilder_ownParams n ps p of Inl e \<Rightarrow> Inl e | Inr own \<Rightarrow>
      Inr \<lparr> name = n,
            parent = map_option name p,
            data = dt,
            url = u,
            navigable = stateBuilder_navigable n u p,
            params = ps,
            views = vs,
            ownParams = own,
            path = stateBuilder_path n p,
            includes_map = stateBuilder_includes n p,
            abstract = d_abstract d,
            self = d_self d \<rparr>)"

subsection \<open>\<^verbatim>\<open>queueState\<close> and \<^verbatim>\<open>registerState\<close>\<close>

definition queued :: "'m factory \<Rightarrow> string \<Rightarrow> 'm decl list" where
  "queued f k = (case map_of (queue f) k of None \<Rightarrow> [] | Some q \<Rightarrow> q)"

definition queueState :: "'m factory \<Rightarrow> string \<Rightarrow> 'm decl \<Rightarrow> 'm factory" where
  "queueState f parentName d = f\<lparr>queue := AList.update parentName (queued f parentName @ [d]) (queue f)\<rparr>"

text \<open>The parent name that \<^verbatim>\<open>registerState\<close> computes, to decide whether to queue.\<close>

definition parentName :: "'m decl \<Rightarrow> string \<Rightarrow> string" where
  "parentName d n =
     (case lastIndexOf CHR ''.'' n of
        Some i \<Rightarrow> take i n
      | None \<Rightarrow> (case d_parent d of Some p \<Rightarrow> p | None \<Rightarrow> []))"

text \<open>
  The keys under which the registration of a declaration reads and writes \<^verbatim>\<open>states\<close> and
  \<^verbatim>\<open>queue\<close>: its name, the parent name that \<^verbatim>\<open>registerState\<close> computes, and the explicit
  parent that the \<^verbatim>\<open>parent\<close> builder looks up (the composite prefix of the name, which it
  looks up otherwise, is that parent name). With these keys plain, \<^verbatim>\<open>this.states[..]\<close>,
  \<^verbatim>\<open>this.states.hasOwnProperty(..)\<close> and \<^verbatim>\<open>this.queue[..]\<close> read what was stored and nothing
  else, as the maps of the model do; with a key such as \<^verbatim>\<open>hasOwnProperty\<close>, \<^verbatim>\<open>map\<close> or
  \<^verbatim>\<open>__proto__\<close> they read or replace an inherited member, which the model does not follow.
\<close>

definition plainDecl :: "'m decl \<Rightarrow> bool" where
  "plainDecl d =
     (case d_name d of
        None \<Rightarrow> True
      | Some n \<Rightarrow>
          plainKey n \<and> plainKey (parentName d n) \<and>
          (case d_parent d of None \<Rightarrow> True | Some p \<Rightarrow> plainKey p))"

text \<open>
  \<^verbatim>\<open>registerState\<close> calls itself for every declaration queued under the name it has just
  stored. The loop reads \<^verbatim>\<open>this.queue[name]\<close> again at every turn; \<open>registerQueued\<close> takes
  the list as read when the loop starts, which is the same list, since \<^verbatim>\<open>queueState\<close> only
  adds under a key that is not in \<^verbatim>\<open>states\<close> (\<open>registerState_keeps_queued\<close> below).
  An exception thrown for a queued declaration leaves the loop and the enclosing calls.
\<close>

function registerState ::
    "'m matcher_ops \<Rightarrow> 'm factory \<Rightarrow> 'm decl \<Rightarrow> (error + 'm state option) \<times> 'm factory"
  and registerQueued ::
    "'m matcher_ops \<Rightarrow> 'm factory \<Rightarrow> 'm decl list \<Rightarrow> error option \<times> 'm factory"
where
  "registerState U f d =
     (case d_name d of
        None \<Rightarrow> (Inl InvalidName, f)
      | Some n \<Rightarrow>
          if CHR ''@'' \<in> set n then (Inl InvalidName, f)
          else if states f n \<noteq> None then (Inl (DuplicateState n), f)
          else if parentName d n \<noteq> [] \<and> states f (parentName d n) = None
            then (Inr None, queueState f (parentName d n) d)
          else (case buildState U f d n of
                  Inl e \<Rightarrow> (Inl e, f)
                | Inr st \<Rightarrow>
                    (case registerQueued U (f\<lparr>states := (states f)(n \<mapsto> st)\<rparr>) (queued f n) of
                       (Some e, f') \<Rightarrow> (Inl e, f')
                     | (None, f') \<Rightarrow> (Inr (Some st), f'))))"
| "registerQueued U f [] = (None, f)"
| "registerQueued U f (c # cs) =
     (case registerState U f c of
        (Inl e, f') \<Rightarrow> (Some e, f')
      | (Inr r, f') \<Rightarrow> registerQueued U f' cs)"
  by pat_completeness auto

subsection \<open>Termination of \<^verbatim>\<open>registerState\<close>\<close>

text \<open>
  Every call that gets past the duplicate check and is not queued stores a name that was
  not in \<^verbatim>\<open>states\<close>, and the names it can store are those of the declaration at hand and of
  the queued declarations: their number bounds the depth of the recursion.
\<close>

definition dnames :: "'m decl \<Rightarrow> string set" where
  "dnames d = (case d_name d of None \<Rightarrow> {} | Some n \<Rightarrow> {n})"

definition qdecls :: "'m factory \<Rightarrow> 'm decl set" where
  "qdecls f = (\<Union>e \<in> set (queue f). set (snd e))"

definition qnames :: "'m factory \<Rightarrow> string set" where
  "qnames f = (\<Union>d \<in> qdecls f. dnames d)"

lemma finite_qnames: "finite (qnames f)"
  by (auto simp: qnames_def qdecls_def dnames_def split: option.splits)

lemma finite_dnames: "finite (dnames d)"
  by (simp add: dnames_def split: option.splits)

lemma set_queued: "set (queued f k) \<subseteq> qdecls f"
  by (auto simp: queued_def qdecls_def split: option.splits dest!: map_of_SomeD [OF sym])

lemma update_vals: "(\<Union>e \<in> set (AList.update k v al). set (snd e)) \<subseteq> set v \<union> (\<Union>e \<in> set al. set (snd e))"
  by (induction al) auto

lemma qdecls_queueState: "qdecls (queueState f k d) \<subseteq> insert d (qdecls f)"
  using update_vals [of k "queued f k @ [d]" "queue f"] set_queued [of f k]
  by (auto simp: queueState_def qdecls_def)

lemma qnames_queueState: "qnames (queueState f k d) \<subseteq> qnames f \<union> dnames d"
  using qdecls_queueState [of f k d] by (auto simp: qnames_def)

lemma qnames_states_update [simp]: "qnames (f\<lparr>states := m\<rparr>) = qnames f"
  by (simp add: qnames_def qdecls_def)

lemma states_queueState [simp]: "states (queueState f k d) = states f"
  by (simp add: queueState_def)

lemma names_queued: "(\<Union>d \<in> set (queued f k). dnames d) \<subseteq> qnames f"
  using set_queued [of f k] by (auto simp: qnames_def)

lemma grows_partial:
  "registerState_registerQueued_dom (Inl (U, f, d)) \<Longrightarrow>
     dom (states f) \<subseteq> dom (states (snd (registerState U f d))) \<and>
     qnames (snd (registerState U f d)) \<subseteq> qnames f \<union> dnames d"
  "registerState_registerQueued_dom (Inr (U, f, cs)) \<Longrightarrow>
     dom (states f) \<subseteq> dom (states (snd (registerQueued U f cs))) \<and>
     qnames (snd (registerQueued U f cs)) \<subseteq> qnames f \<union> (\<Union>c \<in> set cs. dnames c)"
proof (induction U f d and U f cs rule: registerState_registerQueued.pinduct)
  case (1 U f d)
  note dom = "1.hyps"
  show ?case
  proof (cases "d_name d")
    case None
    with dom show ?thesis by (simp add: registerState.psimps)
  next
    case (Some n)
    show ?thesis
    proof (cases "CHR ''@'' \<in> set n \<or> states f n \<noteq> None")
      case True
      with dom Some show ?thesis by (auto simp: registerState.psimps)
    next
      case ok: False
      show ?thesis
      proof (cases "parentName d n \<noteq> [] \<and> states f (parentName d n) = None")
        case True
        with dom Some ok qnames_queueState [of f "parentName d n" d] show ?thesis
          by (simp add: registerState.psimps)
      next
        case avail: False
        show ?thesis
        proof (cases "buildState U f d n")
          case (Inl e)
          with dom Some ok avail show ?thesis by (auto simp: registerState.psimps)
        next
          case (Inr st)
          let ?f1 = "f\<lparr>states := (states f)(n \<mapsto> st)\<rparr>"
          from ok have a: "CHR ''@'' \<notin> set n" and b: "\<not> states f n \<noteq> None" by auto
          note IH = "1.IH" [OF Some a b avail Inr]
          have eq: "snd (registerState U f d) = snd (registerQueued U ?f1 (queued f n))"
            using dom Some ok avail Inr
            by (auto simp: registerState.psimps split: prod.splits option.splits)
          let ?r = "snd (registerQueued U ?f1 (queued f n))"
          have d1: "dom (states f) \<subseteq> dom (states ?f1)" by auto
          from IH have i1: "dom (states ?f1) \<subseteq> dom (states ?r)"
            and i2: "qnames ?r \<subseteq> qnames ?f1 \<union> (\<Union>c \<in> set (queued f n). dnames c)"
            by blast+
          have q1: "qnames ?f1 = qnames f" by simp
          from d1 i1 have "dom (states f) \<subseteq> dom (states ?r)" by (rule subset_trans)
          moreover from i2 names_queued [of f n] have "qnames ?r \<subseteq> qnames f \<union> dnames d"
            unfolding q1 by blast
          ultimately show ?thesis unfolding eq by simp
        qed
      qed
    qed
  qed
next
  case (2 U f)
  then show ?case by (simp add: registerQueued.psimps)
next
  case (3 U f c cs)
  note dom = "3.hyps"
  obtain x y where xy: "registerState U f c = (x, y)" by (cases "registerState U f c")
  note IH1 = "3.IH"(1)
  show ?case
  proof (cases x)
    case (Inl e)
    with dom xy IH1 show ?thesis by (auto simp: registerQueued.psimps)
  next
    case (Inr r)
    note IH2 = "3.IH"(2) [OF xy [symmetric] Inr]
    have eq: "snd (registerQueued U f (c # cs)) = snd (registerQueued U y cs)"
      using dom xy Inr by (simp add: registerQueued.psimps)
    from IH1 xy have a1: "dom (states f) \<subseteq> dom (states y)"
      and a2: "qnames y \<subseteq> qnames f \<union> dnames c" by auto
    from IH2 have b1: "dom (states y) \<subseteq> dom (states (snd (registerQueued U y cs)))"
      and b2: "qnames (snd (registerQueued U y cs)) \<subseteq> qnames y \<union> (\<Union>c \<in> set cs. dnames c)"
      by blast+
    from a1 b1 have "dom (states f) \<subseteq> dom (states (snd (registerQueued U y cs)))"
      by (rule subset_trans)
    moreover from a2 b2
    have "qnames (snd (registerQueued U y cs)) \<subseteq> qnames f \<union> (\<Union>c \<in> set (c # cs). dnames c)"
      by auto
    ultimately show ?thesis unfolding eq by simp
  qed
qed

definition pending :: "'m factory \<Rightarrow> string set \<Rightarrow> nat" where
  "pending f X = card ((X \<union> qnames f) - dom (states f))"

lemma pending_mono:
  "finite X \<Longrightarrow> (Y \<union> qnames g) - dom (states g) \<subseteq> (X \<union> qnames f) - dom (states f) \<Longrightarrow> pending g Y \<le> pending f X"
  unfolding pending_def by (rule card_mono) (auto simp: finite_qnames)

lemma pending_less:
  "finite X \<Longrightarrow> (Y \<union> qnames g) - dom (states g) \<subset> (X \<union> qnames f) - dom (states f) \<Longrightarrow> pending g Y < pending f X"
  unfolding pending_def by (rule psubset_card_mono) (auto simp: finite_qnames)

termination registerState
proof (relation "inv_image (less_than <*lex*> less_than)
    (\<lambda>x. case x of
       Inl (U, f, d) \<Rightarrow> (pending f (dnames d), 0)
     | Inr (U, f, cs) \<Rightarrow> (pending f (\<Union>c \<in> set cs. dnames c), Suc (length cs)))", goal_cases)
  case 1
  show ?case by (intro wf_inv_image wf_lex_prod wf_less_than)
next
  case (2 U f d n st)
  let ?f1 = "f\<lparr>states := (states f)(n \<mapsto> st)\<rparr>"
  from 2 have fresh: "n \<notin> dom (states f)" and dn: "dnames d = {n}"
    by (auto simp: dnames_def)
  have "((\<Union>c \<in> set (queued f n). dnames c) \<union> qnames ?f1) - dom (states ?f1)
          \<subset> (dnames d \<union> qnames f) - dom (states f)"
    using names_queued [of f n] fresh dn by auto
  then have "pending ?f1 (\<Union>c \<in> set (queued f n). dnames c) < pending f (dnames d)"
    by (intro pending_less finite_dnames)
  then show ?case by simp
next
  case (3 U f c cs)
  have "(dnames c \<union> qnames f) - dom (states f)
          \<subseteq> ((\<Union>c \<in> set (c # cs). dnames c) \<union> qnames f) - dom (states f)"
    by auto
  then have "pending f (dnames c) \<le> pending f (\<Union>c \<in> set (c # cs). dnames c)"
    by (intro pending_mono) (auto simp: finite_dnames)
  then show ?case by auto
next
  case (4 U f c cs x y r)
  from grows_partial(1) [OF 4(3)] 4(1) [symmetric]
  have a1: "dom (states f) \<subseteq> dom (states y)" and a2: "qnames y \<subseteq> qnames f \<union> dnames c"
    by auto
  then have "((\<Union>c \<in> set cs. dnames c) \<union> qnames y) - dom (states y)
          \<subseteq> ((\<Union>c \<in> set (c # cs). dnames c) \<union> qnames f) - dom (states f)"
    by auto
  then have "pending y (\<Union>c \<in> set cs. dnames c) \<le> pending f (\<Union>c \<in> set (c # cs). dnames c)"
    by (intro pending_mono) (auto simp: finite_dnames)
  then show ?case by auto
qed

declare registerState.simps [simp del]

subsection \<open>The constructor\<close>

text \<open>
  \<^verbatim>\<open>new stateFactory(..)\<close> registers the root and then clears its \<^verbatim>\<open>navigable\<close>. While the
  root is being registered, \<^verbatim>\<open>this.root\<close> is still \<^verbatim>\<open>undefined\<close>.
\<close>

definition rootDecl :: "'m decl" where
  "rootDecl = \<lparr> d_name = Some [], d_parent = None, d_url = UStr ''^'', d_data = None,
                d_params = PAbsent, d_views = VNull, d_abstract = Some True, d_self = None \<rparr>"

definition create :: "'m matcher_ops \<Rightarrow> error + 'm factory" where
  "create U =
     (case registerState U \<lparr> states = Map.empty, queue = [], root = None \<rparr> rootDecl of
        (Inl e, f) \<Rightarrow> Inl e
      | (Inr None, f) \<Rightarrow> Inl (TypeError ''navigable'')
      | (Inr (Some st), f) \<Rightarrow>
          Inr (f\<lparr> states := (states f)(name st \<mapsto> st\<lparr>navigable := None\<rparr>), root := Some (name st) \<rparr>))"

text \<open>The factories a program can hold: a new one, and what \<^verbatim>\<open>registerState\<close> leaves.\<close>

inductive reachable :: "'m matcher_ops \<Rightarrow> 'm factory \<Rightarrow> bool" for U :: "'m matcher_ops" where
  created: "create U = Inr f \<Longrightarrow> reachable U f"
| registered: "reachable U f \<Longrightarrow> reachable U (snd (registerState U f d))"

text \<open>
  Among them, the factories on which the model is the program: those built from
  declarations whose keys are plain.
\<close>

inductive modelled :: "'m matcher_ops \<Rightarrow> 'm factory \<Rightarrow> bool" for U :: "'m matcher_ops" where
  created: "create U = Inr f \<Longrightarrow> modelled U f"
| registered: "modelled U f \<Longrightarrow> plainDecl d \<Longrightarrow> modelled U (snd (registerState U f d))"

text \<open>Registering a list of declarations one call after the other, up to the first throw.\<close>

fun registerAll ::
  "'m matcher_ops \<Rightarrow> 'm factory \<Rightarrow> 'm decl list \<Rightarrow> error option \<times> 'm factory" where
  "registerAll U f [] = (None, f)"
| "registerAll U f (d # ds) =
     (case registerState U f d of
        (Inl e, f') \<Rightarrow> (Some e, f')
      | (Inr r, f') \<Rightarrow> registerAll U f' ds)"

text \<open>A record whose chain of parents ends at the root.\<close>

inductive descends :: "'m factory \<Rightarrow> string \<Rightarrow> bool" for f :: "'m factory" where
  root: "root f = Some k \<Longrightarrow> descends f k"
| child: "states f n = Some st \<Longrightarrow> parent st = Some k \<Longrightarrow> descends f k \<Longrightarrow> descends f n"

subsection \<open>A matcher for the examples\<close>

text \<open>
  The examples need matchers to run on: a pattern is kept as its text, \<^verbatim>\<open>concat\<close> appends,
  and the parameters are the names that follow a colon, each up to the next slash.
\<close>

fun colonNames :: "string \<Rightarrow> string list" where
  "colonNames [] = []"
| "colonNames (c # cs) =
     (if c = CHR '':'' then takeWhile (\<lambda>x. x \<noteq> CHR ''/'') cs # colonNames cs
      else colonNames cs)"

definition textMatcher :: "string matcher_ops" where
  "textMatcher = \<lparr> compile = (\<lambda>s. s), mconcat = (\<lambda>m s. m @ s), parameters = colonNames \<rparr>"

definition plain :: "string \<Rightarrow> string decl" where
  "plain n = \<lparr> d_name = Some n, d_parent = None, d_url = UAbsent, d_data = None,
               d_params = PAbsent, d_views = VAbsent, d_abstract = None, d_self = None \<rparr>"

text \<open>The declaration \<^verbatim>\<open>{name: "a.b", parent: "c"}\<close>.\<close>

definition adopted :: "string decl" where
  "adopted = (plain ''a.b'')\<lparr>d_parent := Some ''c''\<rparr>"

subsection \<open>What holds of every stored record\<close>

text \<open>
  The root record as the constructor leaves it; a record is \<open>linked\<close> when its parent is
  stored and its \<^verbatim>\<open>params\<close>, \<^verbatim>\<open>path\<close> and \<^verbatim>\<open>includes\<close> extend the parent's, where a parameter
  that \<^verbatim>\<open>paramNames\<close> inherits passes for present and \<^verbatim>\<open>__proto__\<close> is no key of \<^verbatim>\<open>includes\<close>;
  a factory is \<open>sound\<close> when the root is in place and every record is stored under its own
  name, a name without \<^verbatim>\<open>@\<close>, and is linked.
\<close>

definition rootState :: "'m matcher_ops \<Rightarrow> 'm state" where
  "rootState U = \<lparr> name = [], parent = None, data = None, url = Some (compile U []),
       navigable = None, params = parameters U (compile U []), views = [],
       ownParams = parameters U (compile U []), path = [], includes_map = [([], True)],
       abstract = Some True, self = None \<rparr>"

definition linked :: "'m factory \<Rightarrow> 'm state \<Rightarrow> bool" where
  "linked f st =
     (case parent st of
        None \<Rightarrow> True
      | Some k \<Rightarrow>
          (case states f k of
             None \<Rightarrow> False
           | Some pr \<Rightarrow>
               set (params pr) \<subseteq> set (params st) \<union> set objectPrototype \<and>
               path st = path pr @ [name st] \<and>
               fst ` set (includes_map st) =
                 insert (name st) (fst ` set (includes_map pr)) - {''__proto__''}))"

definition sound :: "'m matcher_ops \<Rightarrow> 'm factory \<Rightarrow> bool" where
  "sound U f =
     (root f = Some [] \<and> states f [] = Some (rootState U) \<and>
      (\<forall>n st. states f n = Some st \<longrightarrow> name st = n \<and> CHR ''@'' \<notin> set n \<and> linked f st))"

text \<open>The factory that the constructor returns, and the factory after a list of registrations.\<close>

definition newFactory :: "'m matcher_ops \<Rightarrow> 'm factory" where
  "newFactory U = \<lparr> states = [[] \<mapsto> rootState U], queue = [], root = Some [] \<rparr>"

definition after :: "'m matcher_ops \<Rightarrow> 'm decl list \<Rightarrow> 'm factory" where
  "after U ds = snd (registerAll U (newFactory U) ds)"

section \<open>Invariants of the registry\<close>

text \<open>
  A property of the factory that \<^verbatim>\<open>queueState\<close> keeps, and that storing a freshly built
  record keeps, holds after \<^verbatim>\<open>registerState\<close>, whatever it queued, stored or threw.
\<close>

lemma registerState_preserves:
  assumes q: "\<And>U f k d. P U f \<Longrightarrow> states f k = None \<Longrightarrow> P U (queueState f k d)"
    and s: "\<And>U f d n st. P U f \<Longrightarrow> d_name d = Some n \<Longrightarrow> CHR ''@'' \<notin> set n \<Longrightarrow> states f n = None \<Longrightarrow>
              buildState U f d n = Inr st \<Longrightarrow> P U (f\<lparr>states := (states f)(n \<mapsto> st)\<rparr>)"
  shows "P U f \<Longrightarrow> P U (snd (registerState U f d))"
    and "P U f \<Longrightarrow> P U (snd (registerQueued U f cs))"
proof (induction U f d and U f cs rule: registerState_registerQueued.induct)
  case (1 U f d)
  show ?case
  proof (cases "d_name d")
    case None
    with 1 show ?thesis by (simp add: registerState.simps)
  next
    case (Some n)
    show ?thesis
    proof (cases "CHR ''@'' \<in> set n \<or> states f n \<noteq> None")
      case True
      with 1 Some show ?thesis by (auto simp: registerState.simps)
    next
      case ok: False
      show ?thesis
      proof (cases "parentName d n \<noteq> [] \<and> states f (parentName d n) = None")
        case True
        then have "P U (queueState f (parentName d n) d)" by (intro q "1.prems") simp
        with True ok Some show ?thesis by (simp add: registerState.simps)
      next
        case avail: False
        show ?thesis
        proof (cases "buildState U f d n")
          case (Inl e)
          with "1.prems" Some ok avail show ?thesis by (auto simp: registerState.simps)
        next
          case (Inr st)
          from ok have a: "CHR ''@'' \<notin> set n" and b: "\<not> states f n \<noteq> None" by auto
          from b have b': "states f n = None" by simp
          have "P U (f\<lparr>states := (states f)(n \<mapsto> st)\<rparr>)"
            by (rule s [OF "1.prems" Some a b' Inr])
          then have "P U (snd (registerQueued U (f\<lparr>states := (states f)(n \<mapsto> st)\<rparr>) (queued f n)))"
            by (rule "1.IH" [OF Some a b avail Inr])
          moreover have "snd (registerState U f d) =
              snd (registerQueued U (f\<lparr>states := (states f)(n \<mapsto> st)\<rparr>) (queued f n))"
            using Some ok avail Inr
            by (auto simp: registerState.simps split: prod.splits option.splits)
          ultimately show ?thesis by simp
        qed
      qed
    qed
  qed
next
  case (2 U f)
  then show ?case by simp
next
  case (3 U f c cs)
  obtain x y where xy: "registerState U f c = (x, y)" by (cases "registerState U f c")
  from "3.IH"(1) [OF "3.prems"] xy have py: "P U y" by simp
  show ?case
  proof (cases x)
    case (Inl e)
    with xy py show ?thesis by simp
  next
    case (Inr r)
    from "3.IH"(2) [OF xy [symmetric] Inr py] xy Inr show ?thesis by simp
  qed
qed

lemma create_eq: "create U = Inr (newFactory U)"
  by (simp add: newFactory_def create_def rootDecl_def registerState.simps parentName_def buildState_def
      stateBuilder_parent_def compositeName_def rootRecord_def stateBuilder_data_def stateBuilder_url_def
      stateBuilder_params_def stateBuilder_params_under_def stateBuilder_views_def stateBuilder_ownParams_def stateBuilder_navigable_def
      stateBuilder_path_def stateBuilder_includes_def assign_def queued_def rootState_def)

lemma sound_create: "create U = Inr f \<Longrightarrow> sound U f"
  by (auto simp: create_eq newFactory_def sound_def linked_def rootState_def split: if_splits)

lemma findState_ByName_None:
  "findState f (ByName c) None = Inr (Some pr) \<Longrightarrow> states f c = Some pr"
  by (auto simp: findState_def absoluteName_def refName_def split: if_splits option.splits sum.splits)

lemma stateBuilder_parent_stored:
  "stateBuilder_parent f d n = Inr (Some pr) \<Longrightarrow> \<exists>k. states f k = Some pr"
  by (auto simp: stateBuilder_parent_def rootRecord_def
      split: if_splits option.splits dest: findState_ByName_None)

lemma buildState_fields:
  assumes "buildState U f d n = Inr st"
  shows "\<exists>p. stateBuilder_parent f d n = Inr p \<and> name st = n \<and> parent st = map_option name p \<and>
           stateBuilder_data d p = Inr (data st) \<and>
           stateBuilder_url U f d p = Inr (url st) \<and>
           navigable st = stateBuilder_navigable n (url st) p \<and>
           stateBuilder_params U d (url st) p = Inr (params st) \<and>
           stateBuilder_views d n p = Inr (views st) \<and>
           stateBuilder_ownParams n (params st) p = Inr (ownParams st) \<and>
           path st = stateBuilder_path n p \<and>
           includes_map st = stateBuilder_includes n p \<and>
           abstract st = d_abstract d \<and> self st = d_self d"
  using assms by (auto simp: buildState_def split: sum.splits)

lemma truthy_assign_False: "truthy (assign a False obj) q \<Longrightarrow> truthy obj q"
  by (auto simp: truthy_def assign_def update_conv' split: if_splits option.splits)

lemma truthy_fold_True:
  "truthy (fold (\<lambda>q. assign q True) ps acc) q \<Longrightarrow> q \<in> set ps \<or> truthy acc q"
proof (induction ps arbitrary: acc)
  case Nil
  then show ?case by simp
next
  case (Cons a ps)
  from Cons.prems have "truthy (fold (\<lambda>q. assign q True) ps (assign a True acc)) q" by simp
  from Cons.IH [OF this] show ?case
    by (auto simp: truthy_def assign_def update_conv' split: if_splits option.splits)
qed

lemma requiredLoop_Inr:
  "requiredLoop n qs obj = Inr r \<Longrightarrow> q \<in> set qs \<Longrightarrow> truthy obj q"
proof (induction qs arbitrary: obj)
  case Nil
  then show ?case by simp
next
  case (Cons a qs)
  from Cons.prems(1) have a: "truthy obj a"
    and rest: "requiredLoop n qs (assign a False obj) = Inr r"
    by (auto split: if_splits)
  show ?case
  proof (cases "q = a")
    case True
    with a show ?thesis by simp
  next
    case False
    with Cons.prems(2) have "q \<in> set qs" by simp
    from Cons.IH [OF rest this] show ?thesis by (rule truthy_assign_False)
  qed
qed

lemma ownParams_superset:
  assumes "stateBuilder_ownParams n ps (Some pr) = Inr own"
  shows "set (params pr) \<subseteq> set ps \<union> set objectPrototype"
proof
  fix q assume q: "q \<in> set (params pr)"
  from assms obtain r where "requiredLoop n (params pr) (fold (\<lambda>q. assign q True) ps []) = Inr r"
    by (auto simp: stateBuilder_ownParams_def split: sum.splits)
  from requiredLoop_Inr [OF this q]
  have "truthy (fold (\<lambda>q. assign q True) ps []) q" .
  from truthy_fold_True [OF this] show "q \<in> set ps \<union> set objectPrototype"
    by (auto simp: truthy_def inheritedByObject_def)
qed

lemma keys_fold_assign:
  "fst ` set (fold (\<lambda>(k, v). assign k v) xs acc) = fst ` set acc \<union> (fst ` set xs - {''__proto__''})"
proof (induction xs arbitrary: acc)
  case Nil
  then show ?case by simp
next
  case (Cons x xs)
  obtain k v where x: "x = (k, v)" by (cases x)
  have "fst ` set (fold (\<lambda>(k, v). assign k v) (x # xs) acc) =
        fst ` set (assign k v acc) \<union> (fst ` set xs - {''__proto__''})"
    using Cons.IH [of "assign k v acc"] x by simp
  also have "\<dots> = fst ` set acc \<union> (fst ` set (x # xs) - {''__proto__''})"
    using x by (auto simp: assign_def dom_update)
  finally show ?case .
qed

lemma keys_includes:
  "fst ` set (stateBuilder_includes n (Some pr)) =
     insert n (fst ` set (includes_map pr)) - {''__proto__''}"
  by (auto simp: stateBuilder_includes_def extend_def assign_def dom_update keys_fold_assign)

lemma linked_queueState [simp]: "linked (queueState f k d) st = linked f st"
  by (simp add: linked_def cong: option.case_cong)

lemma root_queueState [simp]: "root (queueState f k d) = root f"
  by (simp add: queueState_def)

lemma sound_queueState: "sound U f \<Longrightarrow> sound U (queueState f k d)"
  by (simp add: sound_def)

lemma linked_store:
  assumes "linked f r" and "states f n = None"
  shows "linked (f\<lparr>states := (states f)(n \<mapsto> st)\<rparr>) r"
  using assms by (auto simp: linked_def split: option.splits)

lemma linked_new:
  assumes snd: "sound U f" and fresh: "states f n = None"
    and b: "buildState U f d n = Inr st"
  shows "linked (f\<lparr>states := (states f)(n \<mapsto> st)\<rparr>) st"
proof -
  from buildState_fields [OF b] obtain p where
    p: "stateBuilder_parent f d n = Inr p" and nm: "name st = n"
    and par: "parent st = map_option name p"
    and own: "stateBuilder_ownParams n (params st) p = Inr (ownParams st)"
    and pth: "path st = stateBuilder_path n p"
    and inc: "includes_map st = stateBuilder_includes n p"
    by blast
  show ?thesis
  proof (cases p)
    case None
    with par show ?thesis by (simp add: linked_def)
  next
    case (Some pr)
    from stateBuilder_parent_stored [OF p [unfolded Some]] obtain k where k: "states f k = Some pr"
      by blast
    with snd have nk: "name pr = k" by (simp add: sound_def)
    from k fresh have "k \<noteq> n" by auto
    with k have k1: "states (f\<lparr>states := (states f)(n \<mapsto> st)\<rparr>) k = Some pr" by simp
    have 1: "set (params pr) \<subseteq> set (params st) \<union> set objectPrototype"
      using own Some by (auto dest: ownParams_superset)
    have 2: "path st = path pr @ [name st]"
      using pth Some nm by (simp add: stateBuilder_path_def)
    have 3: "fst ` set (includes_map st) =
        insert (name st) (fst ` set (includes_map pr)) - {''__proto__''}"
      using inc Some nm keys_includes [of n pr] by simp
    from par Some nk have "parent st = Some k" by simp
    with k1 1 2 3 show ?thesis unfolding linked_def by simp
  qed
qed

lemma sound_store:
  assumes snd: "sound U f" and dn: "d_name d = Some n" and at: "CHR ''@'' \<notin> set n"
    and fresh: "states f n = None" and b: "buildState U f d n = Inr st"
  shows "sound U (f\<lparr>states := (states f)(n \<mapsto> st)\<rparr>)"
proof -
  let ?f1 = "f\<lparr>states := (states f)(n \<mapsto> st)\<rparr>"
  from snd fresh have n0: "n \<noteq> []" by (auto simp: sound_def)
  from buildState_fields [OF b] have nm: "name st = n" by blast
  have r: "root ?f1 = Some []" using snd by (simp add: sound_def)
  have s0: "states ?f1 [] = Some (rootState U)" using snd n0 by (simp add: sound_def)
  have all: "name r = m \<and> CHR ''@'' \<notin> set m \<and> linked ?f1 r" if m: "states ?f1 m = Some r" for m r
  proof (cases "m = n")
    case True
    with m have "r = st" by simp
    with True nm at linked_new [OF snd fresh b] show ?thesis by simp
  next
    case False
    with m have "states f m = Some r" by simp
    with snd have "name r = m" "CHR ''@'' \<notin> set m" "linked f r" by (auto simp: sound_def)
    with linked_store [OF _ fresh] show ?thesis by blast
  qed
  from r s0 all show ?thesis unfolding sound_def by blast
qed

lemma sound_registerState: "sound U f \<Longrightarrow> sound U (snd (registerState U f d))"
  by (rule registerState_preserves(1) [where P = sound]) (auto intro: sound_queueState sound_store)

lemma reachable_sound: "reachable U f \<Longrightarrow> sound U f"
  by (induction rule: reachable.induct) (auto intro: sound_create sound_registerState)

text \<open>
  What is queued under a name that is in \<^verbatim>\<open>states\<close> stays as it is: the loop over
  \<^verbatim>\<open>this.queue[name]\<close> runs over the list it found when it started.
\<close>

lemma queued_queueState: "k \<noteq> k' \<Longrightarrow> queued (queueState f k' d) k = queued f k"
  by (simp add: queued_def queueState_def update_conv')

lemma registerState_keeps_queued:
  assumes "states f k \<noteq> None"
  shows "queued (snd (registerState U f d)) k = queued f k"
proof -
  let ?P = "\<lambda>(U :: 'a matcher_ops) g. states g k \<noteq> None \<and> queued g k = queued f k"
  have "?P U (snd (registerState U f d))"
  proof (rule registerState_preserves(1) [where P = ?P])
    show "?P U f" using assms by simp
  next
    fix U :: "'a matcher_ops" and g k' d
    assume a: "?P U g" and b: "states g k' = None"
    then have "k \<noteq> k'" by auto
    with a show "?P U (queueState g k' d)"
      by (simp add: queued_queueState)
  next
    fix U :: "'a matcher_ops" and g d n st
    assume "?P U g"
    then show "?P U (g\<lparr>states := (states g)(n \<mapsto> st)\<rparr>)"
      by (simp add: queued_def)
  qed
  then show ?thesis by simp
qed

lemma reachable_registerAll: "reachable U f \<Longrightarrow> reachable U (snd (registerAll U f ds))"
proof (induction ds arbitrary: f)
  case Nil
  then show ?case by simp
next
  case (Cons d ds)
  obtain x y where xy: "registerState U f d = (x, y)" by (cases "registerState U f d")
  from reachable.registered [OF Cons.prems, of d] xy have y: "reachable U y" by simp
  show ?case
  proof (cases x)
    case (Inl e)
    with xy y show ?thesis by simp
  next
    case (Inr r)
    with xy Cons.IH [OF y] show ?thesis by simp
  qed
qed

lemma reachable_after: "reachable U (after U ds)"
  unfolding after_def by (rule reachable_registerAll) (rule reachable.created, rule create_eq)

subsection \<open>Factories built from declarations with plain keys\<close>

text \<open>
  The rule of invariants, for a property that depends on what is known of the
  declarations registered and queued.
\<close>

lemma registerState_preserves_decl:
  assumes q: "\<And>U f k d. P U f \<Longrightarrow> Q d \<Longrightarrow> states f k = None \<Longrightarrow> P U (queueState f k d)"
    and s: "\<And>U f d n st. P U f \<Longrightarrow> Q d \<Longrightarrow> d_name d = Some n \<Longrightarrow> CHR ''@'' \<notin> set n \<Longrightarrow>
              states f n = None \<Longrightarrow> buildState U f d n = Inr st \<Longrightarrow>
              P U (f\<lparr>states := (states f)(n \<mapsto> st)\<rparr>)"
    and w: "\<And>U f k c. P U f \<Longrightarrow> c \<in> set (queued f k) \<Longrightarrow> Q c"
  shows "P U f \<Longrightarrow> Q d \<Longrightarrow> P U (snd (registerState U f d))"
    and "P U f \<Longrightarrow> \<forall>c \<in> set cs. Q c \<Longrightarrow> P U (snd (registerQueued U f cs))"
proof (induction U f d and U f cs rule: registerState_registerQueued.induct)
  case (1 U f d)
  note Pf = "1.prems"(1) and Qd = "1.prems"(2)
  show ?case
  proof (cases "d_name d")
    case None
    with Pf show ?thesis by (simp add: registerState.simps)
  next
    case (Some n)
    show ?thesis
    proof (cases "CHR ''@'' \<in> set n \<or> states f n \<noteq> None")
      case True
      with Pf Some show ?thesis by (auto simp: registerState.simps)
    next
      case ok: False
      show ?thesis
      proof (cases "parentName d n \<noteq> [] \<and> states f (parentName d n) = None")
        case True
        then have "P U (queueState f (parentName d n) d)" by (intro q Pf Qd) simp
        with True ok Some show ?thesis by (simp add: registerState.simps)
      next
        case avail: False
        show ?thesis
        proof (cases "buildState U f d n")
          case (Inl e)
          with Pf Some ok avail show ?thesis by (auto simp: registerState.simps)
        next
          case (Inr st)
          from ok have a: "CHR ''@'' \<notin> set n" and b: "\<not> states f n \<noteq> None" by auto
          from b have b': "states f n = None" by simp
          have P1: "P U (f\<lparr>states := (states f)(n \<mapsto> st)\<rparr>)"
            by (rule s [OF Pf Qd Some a b' Inr])
          have Qs: "\<forall>c \<in> set (queued f n). Q c" using w [OF Pf] by blast
          have "P U (snd (registerQueued U (f\<lparr>states := (states f)(n \<mapsto> st)\<rparr>) (queued f n)))"
            by (rule "1.IH" [OF Some a b avail Inr P1 Qs])
          moreover have "snd (registerState U f d) =
              snd (registerQueued U (f\<lparr>states := (states f)(n \<mapsto> st)\<rparr>) (queued f n))"
            using Some ok avail Inr
            by (auto simp: registerState.simps split: prod.splits option.splits)
          ultimately show ?thesis by simp
        qed
      qed
    qed
  qed
next
  case (2 U f)
  then show ?case by simp
next
  case (3 U f c cs)
  obtain x y where xy: "registerState U f c = (x, y)" by (cases "registerState U f c")
  from "3.prems"(2) have Qc: "Q c" and Qcs: "\<forall>c \<in> set cs. Q c" by simp_all
  from "3.IH"(1) [OF "3.prems"(1) Qc] xy have py: "P U y" by simp
  show ?case
  proof (cases x)
    case (Inl e)
    with xy py show ?thesis by simp
  next
    case (Inr r)
    from "3.IH"(2) [OF xy [symmetric] Inr py Qcs] xy Inr show ?thesis by simp
  qed
qed

text \<open>
  In such a factory every key of \<^verbatim>\<open>states\<close> is plain, and so is every declaration that
  waits in the \<^verbatim>\<open>queue\<close>.
\<close>

definition plainFactory :: "'m factory \<Rightarrow> bool" where
  "plainFactory f =
     ((\<forall>n st. states f n = Some st \<longrightarrow> plainKey n) \<and>
      (\<forall>k c. c \<in> set (queued f k) \<longrightarrow> plainDecl c))"

lemma plainKey_empty: "plainKey []"
  by (simp add: plainKey_def objectPrototype_def arrayPrototype_def)

lemma plainFactory_registerState:
  assumes "plainFactory f" and "plainDecl d"
  shows "plainFactory (snd (registerState U f d))"
proof (rule registerState_preserves_decl(1)
    [where P = "\<lambda>U. plainFactory" and Q = plainDecl, OF _ _ _ assms])
  fix U :: "'a matcher_ops" and f :: "'a factory" and k and d :: "'a decl"
  assume "plainFactory f" and "plainDecl d"
  then show "plainFactory (queueState f k d)"
    by (auto simp: plainFactory_def queued_def queueState_def update_conv' split: if_splits)
next
  fix U :: "'a matcher_ops" and f :: "'a factory" and d :: "'a decl" and n and st :: "'a state"
  assume "plainFactory f" and "plainDecl d" and "d_name d = Some n"
  then show "plainFactory (f\<lparr>states := (states f)(n \<mapsto> st)\<rparr>)"
    by (auto simp: plainFactory_def plainDecl_def queued_def)
next
  fix U :: "'a matcher_ops" and f :: "'a factory" and k and c :: "'a decl"
  assume "plainFactory f" and "c \<in> set (queued f k)"
  then show "plainDecl c" by (auto simp: plainFactory_def)
qed

lemma modelled_plain: "modelled U f \<Longrightarrow> plainFactory f"
proof (induction rule: modelled.induct)
  case (created f)
  then have "f = newFactory U" by (simp add: create_eq)
  then show ?case
    by (auto simp: plainFactory_def newFactory_def queued_def plainKey_empty split: if_splits)
next
  case (registered f d)
  then show ?case by (auto intro: plainFactory_registerState)
qed

lemma modelled_reachable: "modelled U f \<Longrightarrow> reachable U f"
  by (induction rule: modelled.induct) (auto intro: reachable.intros)

lemma modelled_name:
  assumes "modelled U f" and "states f n = Some st"
  shows "plainKey n"
  using modelled_plain [OF assms(1)] assms(2) by (auto simp: plainFactory_def)

lemma modelled_registerAll:
  "modelled U f \<Longrightarrow> list_all plainDecl ds \<Longrightarrow> modelled U (snd (registerAll U f ds))"
proof (induction ds arbitrary: f)
  case Nil
  then show ?case by simp
next
  case (Cons d ds)
  obtain x y where xy: "registerState U f d = (x, y)" by (cases "registerState U f d")
  from Cons.prems have pd: "plainDecl d" and pds: "list_all plainDecl ds" by simp_all
  from modelled.registered [OF Cons.prems(1) pd] xy have y: "modelled U y" by simp
  show ?case
  proof (cases x)
    case (Inl e)
    with xy y show ?thesis by simp
  next
    case (Inr r)
    with xy Cons.IH [OF y pds] show ?thesis by simp
  qed
qed

lemma modelled_after: "list_all plainDecl ds \<Longrightarrow> modelled U (after U ds)"
  unfolding after_def
  by (rule modelled_registerAll) (rule modelled.created, rule create_eq)

section \<open>The root record\<close>

text \<open>
  C8. After construction the root record has the empty name, \<^verbatim>\<open>abstract = true\<close>, no
  \<^verbatim>\<open>navigable\<close> and the empty \<^verbatim>\<open>path\<close>, although it was declared with the URL \<^verbatim>\<open>"^"\<close>, which
  is compiled to the matcher of the empty pattern.
\<close>

theorem root_record_after_construction:
  "\<exists>f r. create U = Inr f \<and> root f = Some [] \<and> states f [] = Some r \<and>
         name r = [] \<and> abstract r = Some True \<and> navigable r = None \<and> path r = [] \<and>
         url r = Some (compile U []) \<and> d_url (rootDecl :: 'm decl) = UStr ''^''"
  by (simp add: create_eq newFactory_def rootState_def rootDecl_def)

theorem root_record_after_construction_witness:
  "\<exists>f r. create textMatcher = Inr f \<and> root f = Some [] \<and> states f [] = Some r \<and>
         name r = [] \<and> abstract r = Some True \<and> navigable r = None \<and> path r = [] \<and>
         url r = Some [] \<and> d_url (rootDecl :: string decl) = UStr ''^''"
  using root_record_after_construction [of textMatcher] by (simp add: textMatcher_def)

section \<open>Registering a name twice\<close>



section \<open>The base of a relative URL\<close>

text \<open>
  C10. In a factory that a program can hold, for a declaration whose \<^verbatim>\<open>url\<close> is a string that
  does not begin with \<^verbatim>\<open>^\<close> and whose parent record has no \<^verbatim>\<open>navigable\<close>, the \<^verbatim>\<open>url\<close> builder
  does not throw: it returns the matcher of the root record, the compiled empty pattern,
  concatenated with the declared string, and that is the \<^verbatim>\<open>url\<close> of the record when the
  other builders succeed.
\<close>

theorem root_matcher_is_concat_base:
  assumes r: "reachable U f"
    and p: "stateBuilder_parent f d n = Inr (Some pr)"
    and nav: "navigable pr = None"
    and u: "d_url d = UStr u" and rel: "take 1 u \<noteq> ''^''"
  shows "\<exists>rt. rootRecord f = Some rt \<and> url rt = Some (compile U []) \<and>
           stateBuilder_url U f d (Some pr) = Inr (Some (mconcat U (compile U []) u)) \<and>
           (case buildState U f d n of
              Inl e \<Rightarrow> True
            | Inr st \<Rightarrow> url st = Some (mconcat U (compile U []) u))"
proof -
  from reachable_sound [OF r] have rt: "rootRecord f = Some (rootState U)"
    by (simp add: sound_def rootRecord_def)
  have ur: "url (rootState U) = Some (compile U [])" by (simp add: rootState_def)
  have b: "stateBuilder_url U f d (Some pr) = Inr (Some (mconcat U (compile U []) u))"
    using nav u rel rt ur by (simp add: stateBuilder_url_def concatBase_def)
  have "url st = Some (mconcat U (compile U []) u)" if "buildState U f d n = Inr st" for st
    using buildState_fields [OF that] p b by auto
  with rt ur b show ?thesis by (auto split: sum.splits)
qed

theorem root_matcher_is_concat_base_witness:
  "reachable textMatcher (newFactory textMatcher) \<and>
   stateBuilder_parent (newFactory textMatcher) ((plain ''a'')\<lparr>d_url := UStr ''/a''\<rparr>) ''a''
     = Inr (Some (rootState textMatcher)) \<and>
   navigable (rootState textMatcher) = None \<and>
   take 1 ''/a'' \<noteq> ''^'' \<and>
   stateBuilder_url textMatcher (newFactory textMatcher) ((plain ''a'')\<lparr>d_url := UStr ''/a''\<rparr>)
     (Some (rootState textMatcher)) = Inr (Some ''/a'') \<and>
   (case buildState textMatcher (newFactory textMatcher) ((plain ''a'')\<lparr>d_url := UStr ''/a''\<rparr>) ''a'' of
      Inl e \<Rightarrow> False
    | Inr st \<Rightarrow> url st = Some ''/a'')"
proof -
  let ?d = "(plain ''a'')\<lparr>d_url := UStr ''/a''\<rparr> :: string decl"
  have r: "reachable textMatcher (newFactory textMatcher)"
    by (rule reachable.created) (rule create_eq)
  have p: "stateBuilder_parent (newFactory textMatcher) ?d ''a'' = Inr (Some (rootState textMatcher))"
    by (simp add: stateBuilder_parent_def plain_def compositeName_def rootRecord_def newFactory_def)
  have nav: "navigable (rootState textMatcher) = None" by (simp add: rootState_def)
  have u: "d_url ?d = UStr ''/a''" by simp
  have rel: "take 1 ''/a'' \<noteq> ''^''" by simp
  have ok: "case buildState textMatcher (newFactory textMatcher) ?d ''a'' of Inl e \<Rightarrow> False | Inr st \<Rightarrow> True"
    by code_simp
  from root_matcher_is_concat_base [OF r p nav u rel] ok r p nav rel show ?thesis
    by (auto simp: textMatcher_def split: sum.splits)
qed

section \<open>Relative names\<close>

text \<open>
  The resolution of a relative name as the specification words it: the segments that are
  left after a leading empty one, the climb over the leading \<^verbatim>\<open>^\<close> segments, and the join.
\<close>

fun climb_spec ::
  "'m factory \<Rightarrow> string \<Rightarrow> 'm state \<Rightarrow> 'm state \<Rightarrow> string list \<Rightarrow> error + 'm state \<times> string list"
where
  "climb_spec f nm base anchor [] = Inr (anchor, [])"
| "climb_spec f nm base anchor (s # rest) =
     (if s = ''^'' then
        (case parent anchor of
           None \<Rightarrow> Inl (InvalidRelativePath nm (name base))
         | Some k \<Rightarrow>
             (case states f k of
                None \<Rightarrow> Inl (DanglingReference k)
              | Some p \<Rightarrow> climb_spec f nm base p rest))
      else Inr (anchor, s # rest))"

definition resolveRelative_spec :: "'m factory \<Rightarrow> string \<Rightarrow> 'm state \<Rightarrow> error + string" where
  "resolveRelative_spec f nm base =
     (case climb_spec f nm base base
             (case split CHR ''.'' nm of [] \<Rightarrow> [] | s # rest \<Rightarrow> if s = [] then rest else s # rest) of
        Inl e \<Rightarrow> Inl e
      | Inr (anchor, remainder) \<Rightarrow>
          Inr (if name anchor \<noteq> [] \<and> join ''.'' remainder \<noteq> []
               then name anchor @ ''.'' @ join ''.'' remainder
               else name anchor @ join ''.'' remainder))"

declare walk.simps [simp del]

lemma climb_spec_suffix:
  "climb_spec f nm base a xs = Inr (a', rem) \<Longrightarrow>
     length rem \<le> length xs \<and> rem = drop (length xs - length rem) xs"
proof (induction xs arbitrary: a)
  case Nil
  then show ?case by simp
next
  case (Cons s xs)
  show ?case
  proof (cases "s = ''^''")
    case True
    with Cons.prems obtain k p where "states f k = Some p"
      and c: "climb_spec f nm base p xs = Inr (a', rem)"
      by (auto split: option.splits)
    from Cons.IH [OF c] show ?thesis by (auto simp: Suc_diff_le)
  next
    case False
    with Cons.prems show ?thesis by auto
  qed
qed

lemma walk_climb:
  assumes "i \<le> length rel" and "i = 0 \<Longrightarrow> rel \<noteq> [] \<Longrightarrow> rel ! 0 \<noteq> []"
  shows "walk f nm base rel i cur =
          (case climb_spec f nm base cur (drop i rel) of
             Inl e \<Rightarrow> Inl e
           | Inr (a, rem) \<Rightarrow> Inr (length rel - length rem, a))"
  using assms
proof (induction "length rel - i" arbitrary: i cur)
  case 0
  then have "i = length rel" by simp
  then show ?case by (subst walk.simps) auto
next
  case (Suc m)
  then have lt: "i < length rel" by simp
  then have dr: "drop i rel = rel ! i # drop (Suc i) rel" by (simp add: Cons_nth_drop_Suc)
  have ne: "\<not> (rel ! i = [] \<and> i = 0)"
  proof
    assume a: "rel ! i = [] \<and> i = 0"
    with lt have "rel \<noteq> []" by auto
    with a Suc.prems(2) show False by auto
  qed
  show ?case
  proof (cases "rel ! i = ''^''")
    case caret: True
    show ?thesis
    proof (cases "parent cur")
      case None
      with lt ne caret dr show ?thesis by (subst walk.simps) auto
    next
      case (Some k)
      show ?thesis
      proof (cases "states f k")
        case None
        with Some lt ne caret dr show ?thesis by (subst walk.simps) auto
      next
        case st: (Some p)
        have m: "m = length rel - Suc i" using Suc.hyps(2) by simp
        have le: "Suc i \<le> length rel" using lt by simp
        have "walk f nm base rel (Suc i) p =
          (case climb_spec f nm base p (drop (Suc i) rel) of
             Inl e \<Rightarrow> Inl e
           | Inr (a, rem) \<Rightarrow> Inr (length rel - length rem, a))"
          by (rule Suc.hyps(1) [OF m le]) simp
        with Some st lt ne caret dr show ?thesis
          by (subst walk.simps) auto
      qed
    qed
  next
    case False
    with lt ne dr show ?thesis by (subst walk.simps) auto
  qed
qed

lemma split_not_Nil: "split c s \<noteq> []"
  by (induction s) (auto split: list.splits)

lemma walk_from_start:
  assumes "rel \<noteq> []"
  shows "walk f nm base rel 0 base =
          (case climb_spec f nm base base (if rel ! 0 = [] then drop 1 rel else rel) of
             Inl e \<Rightarrow> Inl e
           | Inr (a, rem) \<Rightarrow> Inr (length rel - length rem, a))"
proof (cases "rel ! 0 = []")
  case True
  from assms have "1 \<le> length rel" by (cases rel) auto
  then have "walk f nm base rel 1 base =
          (case climb_spec f nm base base (drop 1 rel) of
             Inl e \<Rightarrow> Inl e
           | Inr (a, rem) \<Rightarrow> Inr (length rel - length rem, a))"
    by (rule walk_climb) simp
  with True assms show ?thesis by (subst walk.simps) auto
next
  case False
  with walk_climb [of 0 rel f nm base base] show ?thesis by simp
qed

lemma absoluteName_relative:
  assumes "isRelative nm"
  shows "absoluteName f nm (Some base) = resolveRelative_spec f nm base"
proof -
  let ?rel = "split CHR ''.'' nm"
  let ?segs = "if ?rel ! 0 = [] then drop 1 ?rel else ?rel"
  have ne: "?rel \<noteq> []" by (rule split_not_Nil)
  then have segs: "(case ?rel of [] \<Rightarrow> [] | s # rest \<Rightarrow> if s = [] then rest else s # rest) = ?segs"
    by (cases ?rel) auto
  have suffix: "?segs = drop (length ?rel - length ?segs) ?rel"
    using ne by (cases ?rel) auto
  show ?thesis
  proof (cases "climb_spec f nm base base ?segs")
    case (Inl e)
    with assms ne show ?thesis
      by (simp add: absoluteName_def resolveRelative_spec_def walk_from_start segs)
  next
    case (Inr r)
    obtain a rem where r: "r = (a, rem)" by (cases r)
    from climb_spec_suffix [OF Inr [unfolded r]]
    have 1: "length rem \<le> length ?segs" and 2: "rem = drop (length ?segs - length rem) ?segs"
      by auto
    have "length ?segs \<le> length ?rel" by simp
    have "drop (length ?rel - length rem) ?rel = drop (length ?segs - length rem) (drop (length ?rel - length ?segs) ?rel)"
      using 1 \<open>length ?segs \<le> length ?rel\<close> by simp
    also have "\<dots> = rem" using 2 suffix by simp
    finally have rem: "drop (length ?rel - length rem) ?rel = rem" .
    from assms ne Inr r rem show ?thesis
      by (simp add: absoluteName_def resolveRelative_spec_def walk_from_start segs)
  qed
qed

lemma sound_parent:
  assumes "sound U f" and "states f n = Some st" and "parent st = Some k"
  shows "\<exists>pr. states f k = Some pr \<and> name pr = k \<and>
           set (params pr) \<subseteq> set (params st) \<union> set objectPrototype \<and>
           path st = path pr @ [n] \<and>
           fst ` set (includes_map st) = insert n (fst ` set (includes_map pr)) - {''__proto__''}"
proof -
  from assms(1,2) have l: "linked f st" and nm: "name st = n" by (simp_all add: sound_def)
  from l assms(3) have "states f k \<noteq> None"
    by (auto simp: linked_def split: option.splits)
  then obtain pr where pr: "states f k = Some pr" by blast
  with l assms(3) have rest: "set (params pr) \<subseteq> set (params st) \<union> set objectPrototype"
      "path st = path pr @ [name st]"
      "fst ` set (includes_map st) = insert (name st) (fst ` set (includes_map pr)) - {''__proto__''}"
    by (simp_all add: linked_def)
  from assms(1) pr have "name pr = k" by (simp add: sound_def)
  with pr rest nm show ?thesis by simp
qed

lemma sibling_of_child:
  assumes r: "reachable U f" and b: "states f ''a.b'' = Some b" and pb: "parent b = Some ''a''"
    and s: "states f ''a.sibling'' = Some s"
  shows "findState f (ByName ''^.sibling'') (Some b) = Inr (Some s)"
proof -
  from sound_parent [OF reachable_sound [OF r] b pb]
  obtain pr where pr: "states f ''a'' = Some pr" and npr: "name pr = ''a''" by (elim exE conjE)
  have "isRelative ''^.sibling''" by (simp add: isRelative_def)
  then have "absoluteName f ''^.sibling'' (Some b) = resolveRelative_spec f ''^.sibling'' b"
    by (rule absoluteName_relative)
  also have "\<dots> = Inr ''a.sibling''"
    using pb pr npr by (simp add: resolveRelative_spec_def)
  finally show ?thesis using s
    by (simp add: findState_def refName_def isStr_def)
qed

text \<open>
  C7, as amended. In a factory built from declarations with plain keys, a name that
  begins with \<^verbatim>\<open>.\<close> or \<^verbatim>\<open>^\<close> is relative: \<^verbatim>\<open>findState\<close> without a base throws, and with a
  base it throws what the specification's resolution throws or returns what is stored
  under the name that this resolution gives (split on the dot, drop a leading empty
  segment, climb to the parent at every following \<^verbatim>\<open>^\<close>, an error when there is none,
  stop at the first other segment and join the rest onto the name reached, with a dot
  only when both are not empty), when that name is not the name of a member that \<^verbatim>\<open>states\<close>
  inherits. Any other name is looked up as it is. In particular
  \<^verbatim>\<open>findState("^.sibling", base)\<close> for the record \<^verbatim>\<open>a.b\<close> whose parent is the record \<^verbatim>\<open>a\<close> returns
  the record \<^verbatim>\<open>a.sibling\<close>.
\<close>

theorem findState_relative_reference:
  assumes m: "modelled U f"
  shows "(c = CHR ''.'' \<or> c = CHR ''^'' \<longrightarrow>
            findState f (ByName (c # rest)) None = Inl (NoReferencePoint (c # rest)) \<and>
            (case resolveRelative_spec f (c # rest) base of
               Inl e \<Rightarrow> findState f (ByName (c # rest)) (Some base) = Inl e
             | Inr absolute \<Rightarrow>
                 \<not> inheritedByObject absolute \<longrightarrow>
                 findState f (ByName (c # rest)) (Some base) = Inr (states f absolute))) \<and>
         ((nm = [] \<or> (hd nm \<noteq> CHR ''.'' \<and> hd nm \<noteq> CHR ''^'')) \<and> \<not> inheritedByObject nm \<longrightarrow>
            findState f (ByName nm) anyBase = Inr (states f nm)) \<and>
         (states f ''a.b'' = Some b \<and> parent b = Some ''a'' \<and>
          states f ''a.sibling'' = Some s \<longrightarrow>
            findState f (ByName ''^.sibling'') (Some b) = Inr (Some s))"
proof (intro conjI impI)
  assume "c = CHR ''.'' \<or> c = CHR ''^''"
  then have "isRelative (c # rest)" by (auto simp: isRelative_def)
  then show "findState f (ByName (c # rest)) None = Inl (NoReferencePoint (c # rest))"
    by (simp add: findState_def absoluteName_def refName_def)
next
  assume "c = CHR ''.'' \<or> c = CHR ''^''"
  then have "isRelative (c # rest)" by (auto simp: isRelative_def)
  from absoluteName_relative [OF this, of f base]
  show "case resolveRelative_spec f (c # rest) base of
          Inl e \<Rightarrow> findState f (ByName (c # rest)) (Some base) = Inl e
        | Inr absolute \<Rightarrow>
            \<not> inheritedByObject absolute \<longrightarrow>
            findState f (ByName (c # rest)) (Some base) = Inr (states f absolute)"
    by (simp add: findState_def refName_def isStr_def split: sum.splits option.splits)
next
  assume "(nm = [] \<or> (hd nm \<noteq> CHR ''.'' \<and> hd nm \<noteq> CHR ''^'')) \<and> \<not> inheritedByObject nm"
  then have "\<not> isRelative nm" by (auto simp: isRelative_def split: list.splits)
  then show "findState f (ByName nm) anyBase = Inr (states f nm)"
    by (simp add: findState_def absoluteName_def refName_def isStr_def split: option.splits)
next
  assume "states f ''a.b'' = Some b \<and> parent b = Some ''a'' \<and> states f ''a.sibling'' = Some s"
  with modelled_reachable [OF m]
  show "findState f (ByName ''^.sibling'') (Some b) = Inr (Some s)"
    by (auto intro: sibling_of_child)
qed

text \<open>The states \<^verbatim>\<open>a\<close>, \<^verbatim>\<open>a.b\<close> and \<^verbatim>\<open>a.sibling\<close>, registered in this order.\<close>

definition family :: "string factory" where
  "family = after textMatcher [plain ''a'', plain ''a.b'', plain ''a.sibling'']"

theorem findState_relative_reference_witness:
  "modelled textMatcher family \<and>
   findState family (ByName ''^.sibling'') None = Inl (NoReferencePoint ''^.sibling'') \<and>
   \<not> inheritedByObject ''a.sibling'' \<and>
   (\<exists>b s. states family ''a.b'' = Some b \<and> name b = ''a.b'' \<and> parent b = Some ''a'' \<and>
          states family ''a.sibling'' = Some s \<and> name s = ''a.sibling'' \<and>
          resolveRelative_spec family ''^.sibling'' b = Inr ''a.sibling'' \<and>
          findState family (ByName ''^.sibling'') (Some b) = Inr (states family ''a.sibling'') \<and>
          findState family (ByName ''a.sibling'') None = Inr (Some s) \<and>
          findState family (ByName ''^.sibling'') (Some b) = Inr (Some s))"
proof -
  have pk: "plainKey ''a''" "plainKey ''a.b''" "plainKey ''a.sibling''" "plainKey []"
    by (simp_all add: plainKey_def objectPrototype_def arrayPrototype_def)
  then have "list_all plainDecl [plain ''a'', plain ''a.b'', plain ''a.sibling'' :: string decl]"
    by (simp add: plainDecl_def plain_def parentName_def)
  then have m: "modelled textMatcher family" unfolding family_def by (rule modelled_after)
  note r = modelled_reachable [OF m]
  have ni: "\<not> inheritedByObject ''a.sibling''"
    by (simp add: inheritedByObject_def objectPrototype_def)
  have "states family ''a.b'' \<noteq> None" by code_simp
  then obtain b where b: "states family ''a.b'' = Some b"
    by (elim not_None_eq [THEN iffD1, elim_format] exE)
  have "states family ''a.sibling'' \<noteq> None" by code_simp
  then obtain s where s: "states family ''a.sibling'' = Some s"
    by (elim not_None_eq [THEN iffD1, elim_format] exE)
  have "map_option parent (states family ''a.b'') = Some (Some ''a'')" by code_simp
  with b have pb: "parent b = Some ''a''" by simp
  from reachable_sound [OF r] b s have nm: "name b = ''a.b''" "name s = ''a.sibling''"
    by (simp_all add: sound_def)
  from sound_parent [OF reachable_sound [OF r] b pb]
  obtain pr where pr: "states family ''a'' = Some pr" and npr: "name pr = ''a''" by (elim exE conjE)
  have 3: "resolveRelative_spec family ''^.sibling'' b = Inr ''a.sibling''"
    using pb pr npr by (simp add: resolveRelative_spec_def)
  note T = findState_relative_reference [OF m, of "CHR ''^''" "''.sibling''" b "''a.sibling''" None b s]
  have c: "CHR ''^'' = CHR ''.'' \<or> CHR ''^'' = CHR ''^''" by simp
  note T1 = mp [OF conjunct1 [OF T] c]
  have 1: "findState family (ByName ''^.sibling'') None = Inl (NoReferencePoint ''^.sibling'')"
    by (rule conjunct1 [OF T1])
  from conjunct2 [OF T1] 3 ni
  have 4: "findState family (ByName ''^.sibling'') (Some b) = Inr (states family ''a.sibling'')"
    by simp
  have a: "(''a.sibling'' = [] \<or> (hd ''a.sibling'' \<noteq> CHR ''.'' \<and> hd ''a.sibling'' \<noteq> CHR ''^'')) \<and>
      \<not> inheritedByObject ''a.sibling''"
    using ni by simp
  from mp [OF conjunct1 [OF conjunct2 [OF T]] a] s
  have 5: "findState family (ByName ''a.sibling'') None = Inr (Some s)" by simp
  have hyp: "states family ''a.b'' = Some b \<and> parent b = Some ''a'' \<and>
      states family ''a.sibling'' = Some s"
    using b pb s by (intro conjI)
  have 2: "findState family (ByName ''^.sibling'') (Some b) = Inr (Some s)"
    by (rule mp [OF conjunct2 [OF conjunct2 [OF T]] hyp])
  have "states family ''a.b'' = Some b \<and> name b = ''a.b'' \<and> parent b = Some ''a'' \<and>
          states family ''a.sibling'' = Some s \<and> name s = ''a.sibling'' \<and>
          resolveRelative_spec family ''^.sibling'' b = Inr ''a.sibling'' \<and>
          findState family (ByName ''^.sibling'') (Some b) = Inr (states family ''a.sibling'') \<and>
          findState family (ByName ''a.sibling'') None = Inr (Some s) \<and>
          findState family (ByName ''^.sibling'') (Some b) = Inr (Some s)"
    using b nm pb s 3 4 5 2 by (intro conjI)
  then have E: "\<exists>b s. states family ''a.b'' = Some b \<and> name b = ''a.b'' \<and> parent b = Some ''a'' \<and>
          states family ''a.sibling'' = Some s \<and> name s = ''a.sibling'' \<and>
          resolveRelative_spec family ''^.sibling'' b = Inr ''a.sibling'' \<and>
          findState family (ByName ''^.sibling'') (Some b) = Inr (states family ''a.sibling'') \<and>
          findState family (ByName ''a.sibling'') None = Inr (Some s) \<and>
          findState family (ByName ''^.sibling'') (Some b) = Inr (Some s)"
    by (intro exI)
  show ?thesis by (rule conjI [OF m conjI [OF 1 conjI [OF ni E]]])
qed

text \<open>
  The instance as the claim words it, for any base named \<^verbatim>\<open>a.b\<close>, fails when \<^verbatim>\<open>a.b\<close> was
  declared with the explicit parent \<^verbatim>\<open>c\<close>: registered after \<^verbatim>\<open>c\<close>, \<^verbatim>\<open>a\<close> and \<^verbatim>\<open>a.sibling\<close>, the
  record \<^verbatim>\<open>a.b\<close> has the parent \<^verbatim>\<open>c\<close>, the name resolved is \<^verbatim>\<open>c.sibling\<close>, and \<^verbatim>\<open>findState\<close>
  returns \<^verbatim>\<open>undefined\<close> although \<^verbatim>\<open>a.sibling\<close> is registered.
\<close>

definition adoptive :: "string factory" where
  "adoptive = after textMatcher [plain ''c'', plain ''a'', plain ''a.sibling'', adopted]"

theorem sibling_of_adopted_counterexample:
  "fst (registerAll textMatcher (newFactory textMatcher)
          [plain ''c'', plain ''a'', plain ''a.sibling'', adopted]) = None \<and>
   map_option name (states adoptive ''a.b'') = Some ''a.b'' \<and>
   map_option parent (states adoptive ''a.b'') = Some (Some ''c'') \<and>
   map_option name (states adoptive ''a.sibling'') = Some ''a.sibling'' \<and>
   findState adoptive (ByName ''^.sibling'') (states adoptive ''a.b'') = Inr None"
  by code_simp

section \<open>The \<^verbatim>\<open>includes\<close> map\<close>

lemma includes_of_descendant_aux:
  assumes snd: "sound U f" and d: "descends f n"
  shows "\<exists>st. states f n = Some st \<and>
           fst ` set (includes_map st) = (set (path st) \<union> {n} \<union> {[]}) - {''__proto__''} \<and>
           (n = [] \<or> n \<in> set (path st)) \<and> (\<forall>m \<in> set (path st). states f m \<noteq> None)"
  using d
proof (induction rule: descends.induct)
  case (root k)
  with snd have "k = []" and "states f [] = Some (rootState U)" by (simp_all add: sound_def)
  then show ?case by (simp add: rootState_def)
next
  case (child n st k)
  from child.IH obtain pr where pr: "states f k = Some pr"
    and keys: "fst ` set (includes_map pr) = (set (path pr) \<union> {k} \<union> {[]}) - {''__proto__''}"
    and on: "k = [] \<or> k \<in> set (path pr)"
    and stored: "\<forall>m \<in> set (path pr). states f m \<noteq> None"
    by (elim exE conjE)
  from sound_parent [OF snd child.hyps(1,2)] pr
  have pth: "path st = path pr @ [n]"
    and inc: "fst ` set (includes_map st) = insert n (fst ` set (includes_map pr)) - {''__proto__''}"
    by auto
  have "fst ` set (includes_map st) = (set (path st) \<union> {n} \<union> {[]}) - {''__proto__''}"
    unfolding inc keys pth using on by auto
  moreover have "\<forall>m \<in> set (path st). states f m \<noteq> None"
    unfolding pth using stored child.hyps(1) by auto
  ultimately show ?case using child.hyps(1) pth by simp
qed

lemma plainKey_proto: "plainKey k \<Longrightarrow> k \<noteq> ''__proto__''"
  by (auto simp: plainKey_def objectPrototype_def)

text \<open>
  C5, as amended. In a factory built from declarations with plain keys, for every stored
  record whose chain of parents ends at the root, the keys of \<^verbatim>\<open>includes\<close> are exactly the
  names on its \<^verbatim>\<open>path\<close>, its own name and the empty name of the root: \<^verbatim>\<open>includes\<close> is copied
  from the parent, and the root includes itself, whereas \<^verbatim>\<open>path\<close> leaves the root out.
\<close>

theorem includes_of_descendant:
  assumes "modelled U f" and "descends f n" and "states f n = Some st"
  shows "fst ` set (includes_map st) = set (path st) \<union> {name st} \<union> {[]}"
proof -
  note s = reachable_sound [OF modelled_reachable [OF assms(1)]]
  from includes_of_descendant_aux [OF s assms(2)] assms(3)
  have keys: "fst ` set (includes_map st) = (set (path st) \<union> {n} \<union> {[]}) - {''__proto__''}"
    and stored: "\<forall>m \<in> set (path st). states f m \<noteq> None"
    by simp_all
  have "m \<noteq> ''__proto__''" if "m \<in> set (path st)" for m
  proof -
    from stored that obtain r where "states f m = Some r" by auto
    from modelled_name [OF assms(1) this] show ?thesis by (rule plainKey_proto)
  qed
  moreover from modelled_name [OF assms(1,3)] have "n \<noteq> ''__proto__''" by (rule plainKey_proto)
  ultimately have "(set (path st) \<union> {n} \<union> {[]}) - {''__proto__''} = set (path st) \<union> {n} \<union> {[]}"
    by auto
  moreover from s assms(3) have "name st = n" by (simp add: sound_def)
  ultimately show ?thesis using keys by simp
qed

text \<open>The factory with the one state \<^verbatim>\<open>a\<close>.\<close>

definition single :: "string factory" where
  "single = after textMatcher [plain ''a'']"

lemma single_a:
  "states single ''a'' \<noteq> None"
  "map fst (includes_map (the (states single ''a''))) = [[], ''a'']"
  "path (the (states single ''a'')) = [''a'']"
  "name (the (states single ''a'')) = ''a''"
  "parent (the (states single ''a'')) = Some []"
  by (code_simp, code_simp, code_simp, code_simp, code_simp)

theorem includes_of_descendant_witness:
  "modelled textMatcher single \<and> descends single ''a'' \<and> states single ''a'' \<noteq> None \<and>
   fst ` set (includes_map (the (states single ''a''))) =
     set (path (the (states single ''a''))) \<union> {name (the (states single ''a''))} \<union> {[]}"
proof -
  have "list_all plainDecl [plain ''a'' :: string decl]"
    by (simp add: plainDecl_def plain_def parentName_def plainKey_def objectPrototype_def
        arrayPrototype_def)
  then have r: "modelled textMatcher single" unfolding single_def by (rule modelled_after)
  from single_a(1) obtain st where st: "states single ''a'' = Some st" by (elim not_None_eq [THEN iffD1, elim_format] exE)
  from reachable_sound [OF modelled_reachable [OF r]] have rt: "root single = Some []"
    by (simp add: sound_def)
  from single_a(5) st have p: "parent st = Some []" by simp
  have d: "descends single ''a''"
    by (rule descends.child [OF st p]) (rule descends.root [OF rt])
  from includes_of_descendant [OF r d st] r d st show ?thesis by simp
qed

text \<open>
  The claim as it stands fails for the state \<^verbatim>\<open>a\<close> registered under the root: its \<^verbatim>\<open>includes\<close>
  has the keys \<^verbatim>\<open>""\<close> and \<^verbatim>\<open>"a"\<close>, and the empty name is neither on its \<^verbatim>\<open>path\<close> nor its own.
\<close>

theorem includes_only_path_and_name_counterexample:
  "states single ''a'' \<noteq> None \<and>
   path (the (states single ''a'')) = [''a''] \<and>
   name (the (states single ''a'')) = ''a'' \<and>
   map fst (includes_map (the (states single ''a''))) = [[], ''a''] \<and>
   fst ` set (includes_map (the (states single ''a''))) \<noteq>
     set (path (the (states single ''a''))) \<union> {name (the (states single ''a''))}"
proof -
  have "fst ` set (includes_map (the (states single ''a''))) =
        set (map fst (includes_map (the (states single ''a''))))" by simp
  also have "\<dots> = {[], ''a''}" unfolding single_a(2) by simp
  finally have "fst ` set (includes_map (the (states single ''a''))) \<noteq>
     set (path (the (states single ''a''))) \<union> {name (the (states single ''a''))}"
    unfolding single_a(3,4) by auto
  with single_a show ?thesis by simp
qed

section \<open>Inherited data\<close>

text \<open>
  C2. The claim says that the \<^verbatim>\<open>data\<close> of a state under a resolved parent is resolved to the
  merge of the parent's data and its own. The builder does compute the merge, but assigns
  it to \<^verbatim>\<open>state.self.data\<close> first, and \<^verbatim>\<open>state.self\<close> is \<^verbatim>\<open>undefined\<close> for every declaration
  that does not bring a \<^verbatim>\<open>self\<close> object: whenever the parent record has data, the builder
  throws and the state is not registered.
\<close>

theorem data_builder_throws_on_inherited_data:
  "data pr = Some pd \<Longrightarrow> d_self d = None \<Longrightarrow>
     stateBuilder_data d (Some pr) = Inl (TypeError ''self'')"
  by (simp add: stateBuilder_data_def)

text \<open>The state \<^verbatim>\<open>a\<close> with data \<^verbatim>\<open>{k: "v"}\<close>; then \<^verbatim>\<open>a.b\<close> is registered under it.\<close>

definition withData :: "string factory" where
  "withData = after textMatcher [(plain ''a'')\<lparr>d_data := Some [(''k'', ''v'')]\<rparr>]"

lemma withData_a:
  "states withData ''a'' \<noteq> None"
  "data (the (states withData ''a'')) = Some [(''k'', ''v'')]"
  "fst (registerState textMatcher withData (plain ''a.b'')) = Inl (TypeError ''self'')"
  "states (snd (registerState textMatcher withData (plain ''a.b''))) ''a.b'' = None"
  by (code_simp, code_simp, code_simp, code_simp)

theorem data_builder_throws_on_inherited_data_witness:
  "data (the (states withData ''a'')) = Some [(''k'', ''v'')] \<and>
   d_self (plain ''a.b'' :: string decl) = None \<and>
   stateBuilder_data (plain ''a.b'' :: string decl) (Some (the (states withData ''a''))) =
     Inl (TypeError ''self'') \<and>
   fst (registerState textMatcher withData (plain ''a.b'')) = Inl (TypeError ''self'') \<and>
   states (snd (registerState textMatcher withData (plain ''a.b''))) ''a.b'' = None"
proof -
  have s: "d_self (plain ''a.b'' :: string decl) = None" by (simp add: plain_def)
  from data_builder_throws_on_inherited_data [OF withData_a(2) s] withData_a s
  show ?thesis by simp
qed

text \<open>
  With a \<^verbatim>\<open>self\<close> object on the declaration the write succeeds and the builder returns the
  merge, the state's own values winning (in a list, a later entry overrides an earlier one,
  as a later assignment does).
\<close>

lemma map_of_fold_assign:
  "map_of (fold (\<lambda>(k, v). assign k v) xs acc) k =
     (if k = ''__proto__'' then map_of acc k else (map_of acc ++ map_of (rev xs)) k)"
proof (induction xs arbitrary: acc)
  case Nil
  then show ?case by simp
next
  case (Cons x xs)
  obtain k' v where x: "x = (k', v)" by (cases x)
  have "map_of (fold (\<lambda>(k, v). assign k v) (x # xs) acc) k =
        (if k = ''__proto__'' then map_of (assign k' v acc) k
         else (map_of (assign k' v acc) ++ map_of (rev xs)) k)"
    using Cons.IH [of "assign k' v acc"] x by simp
  also have "\<dots> = (if k = ''__proto__'' then map_of acc k
                    else (map_of acc ++ map_of (rev (x # xs))) k)"
    using x by (auto simp: assign_def update_conv' map_add_def split: option.splits)
  finally show ?case .
qed

lemma map_of_extend:
  "map_of (extend a b) k =
     (if k = ''__proto__'' then None else (map_of (rev a) ++ map_of (rev b)) k)"
  by (simp add: extend_def map_of_fold_assign map_add_def split: option.splits)

lemma data_merged_with_self:
  "data pr = Some pd \<Longrightarrow> d_self d = Some i \<Longrightarrow>
     \<exists>merged. stateBuilder_data d (Some pr) = Inr (Some merged) \<and>
       (\<forall>k. k \<noteq> ''__proto__'' \<longrightarrow>
          map_of merged k =
            (map_of (rev pd) ++ map_of (rev (case d_data d of None \<Rightarrow> [] | Some own \<Rightarrow> own))) k)"
  by (simp add: stateBuilder_data_def map_of_extend)

section \<open>The parent name of a declaration\<close>

lemma lastIndexOf_member: "c \<in> set n \<Longrightarrow> lastIndexOf c n \<noteq> None"
  by (induction n) (auto split: option.splits)

text \<open>
  C3. The claim says that an explicit \<^verbatim>\<open>parent\<close> string comes first. In \<^verbatim>\<open>registerState\<close> the
  name comes first: for a name with a dot the parent name is the text before the last dot,
  whatever \<^verbatim>\<open>parent\<close> says, while the \<^verbatim>\<open>parent\<close> builder of the same module does look the
  explicit parent up first.
\<close>

theorem dotted_name_overrides_explicit_parent:
  assumes "CHR ''.'' \<in> set n" and "p \<noteq> []"
  shows "parentName (d\<lparr>d_parent := Some p\<rparr>) n = take (the (lastIndexOf CHR ''.'' n)) n \<and>
         stateBuilder_parent f (d\<lparr>d_parent := Some p\<rparr>) n = findState f (ByName p) None"
  using lastIndexOf_member [OF assms(1)] assms(2)
  by (auto simp: parentName_def stateBuilder_parent_def)

theorem dotted_name_overrides_explicit_parent_witness:
  "CHR ''.'' \<in> set ''a.b'' \<and> ''c'' \<noteq> [] \<and>
   parentName ((plain ''a.b'')\<lparr>d_parent := Some ''c''\<rparr> :: string decl) ''a.b'' = ''a'' \<and>
   stateBuilder_parent (after textMatcher [plain ''a'', plain ''c''])
     ((plain ''a.b'')\<lparr>d_parent := Some ''c''\<rparr>) ''a.b'' =
     Inr (states (after textMatcher [plain ''a'', plain ''c'']) ''c'')"
proof -
  have 1: "CHR ''.'' \<in> set ''a.b''" and 2: "''c'' \<noteq> []" by simp_all
  have 3: "take (the (lastIndexOf CHR ''.'' ''a.b'')) ''a.b'' = ''a''" by simp
  have 4: "findState f (ByName ''c'') None = Inr (states f ''c'')" for f :: "string factory"
    by (simp add: findState_def absoluteName_def isRelative_def refName_def isStr_def split: option.splits)
  from dotted_name_overrides_explicit_parent [OF 1 2, of "plain ''a.b''" "after textMatcher [plain ''a'', plain ''c'']"]
    1 2 3 4 show ?thesis by simp
qed

section \<open>Declared parameters\<close>

text \<open>
  Under a binding of \<^verbatim>\<open>isArray\<close> to a test that holds of the declared array, a
  declaration with both \<^verbatim>\<open>params\<close> and a URL throws the error that names both.
\<close>

lemma conflict_reported_when_isArray_bound:
  "d_params d = PArr ps \<Longrightarrow> isArr (PArr ps) \<Longrightarrow> u \<noteq> None \<Longrightarrow>
     stateBuilder_params_under (Some isArr) U d u p = Inl ConflictingParamsAndUrl"
  by (simp add: stateBuilder_params_under_def)

text \<open>
  C4. The claim says that declaring both \<^verbatim>\<open>params\<close> and \<^verbatim>\<open>url\<close> fails with the error that
  names both. The \<^verbatim>\<open>params\<close> builder calls the unbound \<^verbatim>\<open>isArray\<close> before it looks at the URL: every
  declaration with \<^verbatim>\<open>params\<close> fails with a \<^verbatim>\<open>ReferenceError\<close>; no record is stored.
\<close>

theorem declared_params_throw_reference_error:
  "d_params d \<noteq> PAbsent \<Longrightarrow> stateBuilder_params U d u p = Inl (ReferenceError ''isArray'')"
  by (cases "d_params d") (simp_all add: stateBuilder_params_def stateBuilder_params_under_def isArray_global_def)

text \<open>The declaration \<^verbatim>\<open>{name: "x", url: "/x", params: ["p"]}\<close>.\<close>

definition conflicting :: "string decl" where
  "conflicting = (plain ''x'')\<lparr>d_url := UStr ''/x'', d_params := PArr [''p'']\<rparr>"

theorem declared_params_throw_reference_error_witness:
  "d_params conflicting \<noteq> PAbsent \<and>
   stateBuilder_params textMatcher conflicting (Some ''/x'') (Some (rootState textMatcher)) =
     Inl (ReferenceError ''isArray'') \<and>
   fst (registerState textMatcher (newFactory textMatcher) conflicting) =
     Inl (ReferenceError ''isArray'') \<and>
   states (snd (registerState textMatcher (newFactory textMatcher) conflicting)) ''x'' = None"
proof -
  have 1: "d_params conflicting \<noteq> PAbsent" by (simp add: conflicting_def)
  have 2: "fst (registerState textMatcher (newFactory textMatcher) conflicting) =
     Inl (ReferenceError ''isArray'')" by code_simp
  have 3: "states (snd (registerState textMatcher (newFactory textMatcher) conflicting)) ''x'' = None"
    by code_simp
  from declared_params_throw_reference_error [OF 1, of textMatcher "Some ''/x''" "Some (rootState textMatcher)"]
    1 2 3 show ?thesis by simp
qed

text \<open>
  What holds of the parameters: every stored record covers the parameters of its parent,
  but for those that \<^verbatim>\<open>paramNames\<close> inherits from \<^verbatim>\<open>Object.prototype\<close>; and when the resolved
  parameters of a state miss another parameter of the parent, the \<^verbatim>\<open>ownParams\<close> builder
  throws the missing-parameter error for one of the parent's parameters.
\<close>

lemma params_cover_parent:
  assumes "reachable U f" and "states f n = Some st" and "parent st = Some k"
  shows "\<exists>pr. states f k = Some pr \<and> set (params pr) \<subseteq> set (params st) \<union> set objectPrototype"
  using sound_parent [OF reachable_sound [OF assms(1)] assms(2,3)] by auto

lemma requiredLoop_Inl:
  "\<exists>q \<in> set qs. \<not> truthy obj q \<Longrightarrow>
     \<exists>q \<in> set qs. requiredLoop n qs obj = Inl (MissingRequiredParameter q n)"
proof (induction qs arbitrary: obj)
  case Nil
  then show ?case by simp
next
  case (Cons a qs)
  show ?case
  proof (cases "truthy obj a")
    case False
    then show ?thesis by simp
  next
    case True
    with Cons.prems obtain q where q: "q \<in> set qs" "\<not> truthy obj q" by auto
    then have "\<not> truthy (assign a False obj) q" by (auto dest: truthy_assign_False)
    with q have "\<exists>q \<in> set qs. \<not> truthy (assign a False obj) q" by auto
    from Cons.IH [OF this] True show ?thesis by auto
  qed
qed

lemma missing_parameter_reported:
  assumes "\<not> set (params pr) \<subseteq> set ps \<union> set objectPrototype"
  shows "\<exists>q \<in> set (params pr). stateBuilder_ownParams n ps (Some pr) = Inl (MissingRequiredParameter q n)"
proof -
  from assms obtain q where q: "q \<in> set (params pr)" "q \<notin> set ps" "q \<notin> set objectPrototype"
    by auto
  have "\<not> truthy (fold (\<lambda>q. assign q True) ps []) q"
  proof
    assume "truthy (fold (\<lambda>q. assign q True) ps []) q"
    from truthy_fold_True [OF this] q show False
      by (auto simp: truthy_def inheritedByObject_def)
  qed
  with q have "\<exists>q \<in> set (params pr). \<not> truthy (fold (\<lambda>q. assign q True) ps []) q" by auto
  from requiredLoop_Inl [OF this, of n] show ?thesis
    by (auto simp: stateBuilder_ownParams_def)
qed

text \<open>The state \<^verbatim>\<open>a\<close> with the URL \<^verbatim>\<open>/:id\<close>, whose parameters are \<^verbatim>\<open>["id"]\<close>.\<close>

definition needsId :: "string factory" where
  "needsId = after textMatcher [(plain ''a'')\<lparr>d_url := UStr ''/:id''\<rparr>]"

text \<open>
  C6. The claim says that a state whose parameters would not cover its parent's fails
  with the missing-parameter error. Under \<^verbatim>\<open>a\<close>, which requires \<^verbatim>\<open>id\<close>, the state \<^verbatim>\<open>a.b\<close> declared
  with \<^verbatim>\<open>params: []\<close> fails with the \<^verbatim>\<open>ReferenceError\<close> of \<^verbatim>\<open>isArray\<close> instead; the error of the
  claim is thrown when the parameters come from the URL, as for the absolute URL \<^verbatim>\<open>^/abs\<close>.
\<close>

theorem declared_params_skip_the_required_check:
  "params (the (states needsId ''a'')) = [''id''] \<and>
   fst (registerState textMatcher needsId ((plain ''a.b'')\<lparr>d_params := PArr []\<rparr>)) =
     Inl (ReferenceError ''isArray'') \<and>
   fst (registerState textMatcher needsId ((plain ''a.b'')\<lparr>d_url := UStr ''^/abs''\<rparr>)) =
     Inl (MissingRequiredParameter ''id'' ''a.b'')"
  by code_simp

section \<open>The order of registration\<close>

text \<open>
  C1. The claim says that registering children before their parents gives the registry of
  the parent-first order. Parent first (\<^verbatim>\<open>c\<close>, \<^verbatim>\<open>a\<close>, then \<^verbatim>\<open>a.b\<close> with the explicit parent \<^verbatim>\<open>c\<close>)
  every call succeeds and \<^verbatim>\<open>a.b\<close> is stored as a child of \<^verbatim>\<open>c\<close>. Child first, \<^verbatim>\<open>a.b\<close> is queued
  under \<^verbatim>\<open>a\<close>, the name before its dot; registering \<^verbatim>\<open>a\<close> drains the queue while \<^verbatim>\<open>c\<close> is
  missing and throws, and registering \<^verbatim>\<open>c\<close> afterwards does not bring \<^verbatim>\<open>a.b\<close> back.
\<close>

theorem child_first_order_loses_state:
  "fst (registerAll textMatcher (newFactory textMatcher) [plain ''c'', plain ''a'', adopted]) = None \<and>
   map_option parent (states (after textMatcher [plain ''c'', plain ''a'', adopted]) ''a.b'') = Some (Some ''c'') \<and>
   fst (registerAll textMatcher (newFactory textMatcher) [adopted, plain ''a'']) = Some (TypeError ''params'') \<and>
   states (snd (registerState textMatcher (after textMatcher [adopted, plain ''a'']) (plain ''c''))) ''c'' \<noteq> None \<and>
   states (snd (registerState textMatcher (after textMatcher [adopted, plain ''a'']) (plain ''c''))) ''a'' \<noteq> None \<and>
   states (snd (registerState textMatcher (after textMatcher [adopted, plain ''a'']) (plain ''c''))) ''a.b'' = None"
  by code_simp

subsection \<open>What does hold: declarations whose two parents agree\<close>

text \<open>
  The name under which the \<^verbatim>\<open>parent\<close> builder looks the parent up: the explicit parent, or
  else the composite prefix of the name, or else the root. A declaration is \<open>consistent\<close>
  when this is the parent name on which \<^verbatim>\<open>registerState\<close> queues it.
\<close>

definition lookupName :: "'m decl \<Rightarrow> string \<Rightarrow> string" where
  "lookupName d n =
     (if d_parent d \<noteq> None \<and> d_parent d \<noteq> Some [] then the (d_parent d)
      else (case compositeName n of Some c \<Rightarrow> c | None \<Rightarrow> []))"

text \<open>Every \<^verbatim>\<open>navigable\<close> reference points to a stored record.\<close>

definition closed :: "'m factory \<Rightarrow> bool" where
  "closed f = (\<forall>m st k. states f m = Some st \<longrightarrow> navigable st = Some k \<longrightarrow> states f k \<noteq> None)"

lemma compositeName_nonempty: "compositeName n = Some c \<Longrightarrow> c \<noteq> []"
  by (auto simp: compositeName_def split: option.splits if_splits)

lemma stateBuilder_parent_lookup:
  "stateBuilder_parent f d n =
     (if lookupName d n = [] then Inr (rootRecord f) else findState f (ByName (lookupName d n)) None)"
  by (auto simp: stateBuilder_parent_def lookupName_def split: option.splits dest: compositeName_nonempty)

lemma findState_name:
  "findState f (ByName k) None = (if isRelative k then Inl (NoReferencePoint k) else Inr (states f k))"
  by (simp add: findState_def absoluteName_def refName_def isStr_def split: option.splits)

lemma concatBase_mono:
  assumes le: "states g \<subseteq>\<^sub>m states h" and rt: "root g = root h" and rr: "rootRecord g \<noteq> None"
    and nav: "\<And>k. navigable pr = Some k \<Longrightarrow> states g k \<noteq> None"
  shows "concatBase h (Some pr) = concatBase g (Some pr)"
proof (cases "navigable pr")
  case None
  from rr obtain k r where k: "root g = Some k" and r: "states g k = Some r"
    by (auto simp: rootRecord_def split: option.splits)
  from le r have "states h k = Some r" by (auto simp: map_le_def dom_def)
  with None k r rt show ?thesis by (simp add: concatBase_def rootRecord_def)
next
  case (Some k)
  from nav [OF Some] obtain r where r: "states g k = Some r" by auto
  from le r have "states h k = Some r" by (auto simp: map_le_def dom_def)
  with Some r show ?thesis by (simp add: concatBase_def)
qed

lemma buildState_mono:
  assumes le: "states g \<subseteq>\<^sub>m states h" and rt: "root g = root h" and rr: "rootRecord g \<noteq> None"
    and cl: "closed g"
    and p: "stateBuilder_parent g d n = Inr (Some pr)"
  shows "buildState U h d n = buildState U g d n"
proof -
  from stateBuilder_parent_stored [OF p] obtain k where k: "states g k = Some pr" by blast
  have ph: "stateBuilder_parent h d n = Inr (Some pr)"
  proof (cases "lookupName d n = []")
    case True
    with p have r: "rootRecord g = Some pr" by (simp add: stateBuilder_parent_lookup)
    then obtain kr where kr: "root g = Some kr" "states g kr = Some pr"
      by (auto simp: rootRecord_def split: option.splits)
    with le have "states h kr = Some pr" by (auto simp: map_le_def dom_def)
    with kr rt True show ?thesis by (simp add: stateBuilder_parent_lookup rootRecord_def)
  next
    case False
    with p have nr: "\<not> isRelative (lookupName d n)" and s: "states g (lookupName d n) = Some pr"
      by (auto simp: stateBuilder_parent_lookup findState_name split: if_splits)
    from le s have "states h (lookupName d n) = Some pr" by (auto simp: map_le_def dom_def)
    with False nr show ?thesis by (simp add: stateBuilder_parent_lookup findState_name)
  qed
  have "concatBase h (Some pr) = concatBase g (Some pr)"
    using le rt rr
  proof (rule concatBase_mono)
    fix k' assume "navigable pr = Some k'"
    with cl k show "states g k' \<noteq> None" unfolding closed_def by blast
  qed
  then have "stateBuilder_url U h d (Some pr) = stateBuilder_url U g d (Some pr)"
    by (simp add: stateBuilder_url_def split: url_decl.splits)
  with p ph show ?thesis by (simp add: buildState_def cong: sum.case_cong)
qed

text \<open>
  The setting of the proof: \<open>F\<close> is the factory that a parent-first run over the
  declarations \<open>D\<close> produced (\<open>target\<close>), and \<open>g\<close> is a factory on the way in another order:
  its records are records of \<open>F\<close>, what it queues are declarations of \<open>D\<close> under their
  parent names, and a registered declaration has its parent registered (\<open>within\<close>).
\<close>

definition nm :: "'m decl \<Rightarrow> string" where
  "nm d = (case d_name d of Some n \<Rightarrow> n | None \<Rightarrow> [])"

definition pn :: "'m decl \<Rightarrow> string" where
  "pn d = parentName d (nm d)"

definition consistent :: "'m decl \<Rightarrow> bool" where
  "consistent d = (lookupName d (nm d) = pn d)"

definition target :: "'m matcher_ops \<Rightarrow> 'm factory \<Rightarrow> 'm decl set \<Rightarrow> bool" where
  "target U F D =
     (root F = Some [] \<and> states F [] = Some (rootState U) \<and> closed F \<and>
      (\<forall>d \<in> D. d_name d = Some (nm d) \<and> CHR ''@'' \<notin> set (nm d) \<and> nm d \<noteq> [] \<and>
                consistent d \<and>
                (\<exists>st. states F (nm d) = Some st \<and> buildState U F d (nm d) = Inr st) \<and>
                (pn d = [] \<or> states F (pn d) \<noteq> None)) \<and>
      (\<forall>d \<in> D. \<forall>e \<in> D. nm d = nm e \<longrightarrow> d = e))"

definition within :: "'m matcher_ops \<Rightarrow> 'm factory \<Rightarrow> 'm decl set \<Rightarrow> 'm factory \<Rightarrow> bool" where
  "within U F D g =
     (states g \<subseteq>\<^sub>m states F \<and> root g = Some [] \<and> states g [] = Some (rootState U) \<and> closed g \<and>
      (\<forall>k c. c \<in> set (queued g k) \<longrightarrow> c \<in> D \<and> pn c = k \<and> k \<noteq> []) \<and>
      (\<forall>k. distinct (queued g k)) \<and>
      (\<forall>d \<in> D. states g (nm d) \<noteq> None \<longrightarrow> pn d = [] \<or> states g (pn d) \<noteq> None))"

lemma within_build:
  assumes T: "target U F D" and W: "within U F D g" and d: "d \<in> D"
    and av: "pn d = [] \<or> states g (pn d) \<noteq> None"
  shows "\<exists>st. states F (nm d) = Some st \<and> buildState U g d (nm d) = Inr st"
proof -
  from T d obtain st where st: "states F (nm d) = Some st" and b: "buildState U F d (nm d) = Inr st"
    and c: "lookupName d (nm d) = pn d"
    unfolding target_def consistent_def by blast
  from W have le: "states g \<subseteq>\<^sub>m states F" and rg: "root g = Some []"
    and r0: "states g [] = Some (rootState U)" and cl: "closed g"
    unfolding within_def by blast+
  from T have rF: "root F = Some []" unfolding target_def by blast
  from buildState_fields [OF b] obtain p where pF: "stateBuilder_parent F d (nm d) = Inr p" by blast
  have "\<exists>pr. stateBuilder_parent g d (nm d) = Inr (Some pr)"
  proof (cases "pn d = []")
    case True
    with c rg r0 show ?thesis by (simp add: stateBuilder_parent_lookup rootRecord_def)
  next
    case False
    with av obtain pr where pr: "states g (pn d) = Some pr" by auto
    from pF c False have "\<not> isRelative (pn d)"
      by (auto simp: stateBuilder_parent_lookup findState_name split: if_splits)
    with c False pr show ?thesis by (simp add: stateBuilder_parent_lookup findState_name)
  qed
  then obtain pr where pg: "stateBuilder_parent g d (nm d) = Inr (Some pr)" by blast
  have "rootRecord g \<noteq> None" using rg r0 by (simp add: rootRecord_def)
  from buildState_mono [OF le _ this cl pg, of U] rg rF
  have "buildState U F d (nm d) = buildState U g d (nm d)" by simp
  with st b show ?thesis by simp
qed

lemma closed_store:
  assumes cl: "closed g" and fresh: "states g n = None"
    and b: "buildState U g d n = Inr st"
  shows "closed (g\<lparr>states := (states g)(n \<mapsto> st)\<rparr>)"
proof -
  from buildState_fields [OF b] obtain p where
    p: "stateBuilder_parent g d n = Inr p"
    and nav: "navigable st = stateBuilder_navigable n (url st) p" by blast
  have new: "states g k \<noteq> None \<or> k = n" if "navigable st = Some k" for k
  proof (cases "url st")
    case (Some m)
    with nav that show ?thesis by (simp add: stateBuilder_navigable_def)
  next
    case None
    show ?thesis
    proof (cases p)
      case None
      with \<open>url st = None\<close> nav that show ?thesis by (simp add: stateBuilder_navigable_def)
    next
      case (Some pr)
      from stateBuilder_parent_stored [OF p [unfolded Some]] obtain kp where "states g kp = Some pr"
        by blast
      moreover from Some \<open>url st = None\<close> nav that have "navigable pr = Some k"
        by (simp add: stateBuilder_navigable_def)
      ultimately show ?thesis using cl unfolding closed_def by blast
    qed
  qed
  show ?thesis
    unfolding closed_def
  proof (intro allI impI)
    fix m r k
    assume m: "states (g\<lparr>states := (states g)(n \<mapsto> st)\<rparr>) m = Some r" and k: "navigable r = Some k"
    show "states (g\<lparr>states := (states g)(n \<mapsto> st)\<rparr>) k \<noteq> None"
    proof (cases "m = n")
      case True
      with m have "r = st" by simp
      with k new show ?thesis by auto
    next
      case False
      with m have "states g m = Some r" by simp
      with cl k have "states g k \<noteq> None" unfolding closed_def by blast
      then show ?thesis by simp
    qed
  qed
qed

lemma within_store:
  assumes T: "target U F D" and W: "within U F D g" and d: "d \<in> D"
    and fresh: "states g (nm d) = None"
    and av: "pn d = [] \<or> states g (pn d) \<noteq> None"
    and b: "buildState U g d (nm d) = Inr st"
  shows "within U F D (g\<lparr>states := (states g)(nm d \<mapsto> st)\<rparr>)"
proof -
  let ?g1 = "g\<lparr>states := (states g)(nm d \<mapsto> st)\<rparr>"
  from within_build [OF T W d av] b have stF: "states F (nm d) = Some st" by simp
  from W have le: "states g \<subseteq>\<^sub>m states F" and rg: "root g = Some []"
    and r0: "states g [] = Some (rootState U)" and cl: "closed g"
    and q: "\<forall>k c. c \<in> set (queued g k) \<longrightarrow> c \<in> D \<and> pn c = k \<and> k \<noteq> []"
    and dq: "\<forall>k. distinct (queued g k)"
    and par: "\<forall>d \<in> D. states g (nm d) \<noteq> None \<longrightarrow> pn d = [] \<or> states g (pn d) \<noteq> None"
    unfolding within_def by blast+
  from T d have n0: "nm d \<noteq> []" and uniq: "\<forall>e \<in> D. nm d = nm e \<longrightarrow> d = e"
    unfolding target_def by blast+
  have 1: "states ?g1 \<subseteq>\<^sub>m states F" using le stF by (auto simp: map_le_def)
  have 2: "root ?g1 = Some []" using rg by simp
  have 3: "states ?g1 [] = Some (rootState U)" using r0 n0 by simp
  have 4: "closed ?g1" by (rule closed_store [OF cl fresh b])
  have 5: "\<forall>k c. c \<in> set (queued ?g1 k) \<longrightarrow> c \<in> D \<and> pn c = k \<and> k \<noteq> []"
    using q by (simp add: queued_def)
  have 6: "\<forall>k. distinct (queued ?g1 k)" using dq by (simp add: queued_def)
  have 7: "\<forall>e \<in> D. states ?g1 (nm e) \<noteq> None \<longrightarrow> pn e = [] \<or> states ?g1 (pn e) \<noteq> None"
  proof (intro ballI impI)
    fix e assume e: "e \<in> D" and r: "states ?g1 (nm e) \<noteq> None"
    show "pn e = [] \<or> states ?g1 (pn e) \<noteq> None"
    proof (cases "nm e = nm d")
      case True
      with uniq e have "e = d" by auto
      with av show ?thesis by auto
    next
      case False
      with r have "states g (nm e) \<noteq> None" by simp
      with par e have "pn e = [] \<or> states g (pn e) \<noteq> None" by blast
      then show ?thesis by auto
    qed
  qed
  from 1 2 3 4 5 6 7 show ?thesis unfolding within_def by blast
qed

text \<open>
  What one call does, when the parent is there (\<open>storesOk\<close>), and what the loop over the
  queued children does (\<open>drainsOk\<close>): no throw, the queue unchanged, the names stored are
  those of the declaration and of declarations that were waiting, and every name newly
  stored has had its queue registered.
\<close>

definition newly :: "'m factory \<Rightarrow> 'm factory \<Rightarrow> string \<Rightarrow> bool" where
  "newly g g' m = (states g m = None \<and> states g' m \<noteq> None)"

definition waiting :: "'m factory \<Rightarrow> 'm decl \<Rightarrow> bool" where
  "waiting g e = (\<exists>k. e \<in> set (queued g k) \<and> states g k = None)"

definition drained :: "'m factory \<Rightarrow> 'm factory \<Rightarrow> bool" where
  "drained g g' = (\<forall>m. newly g g' m \<longrightarrow> (\<forall>c \<in> set (queued g' m). states g' (nm c) \<noteq> None))"

definition grown :: "'m factory \<Rightarrow> 'm factory \<Rightarrow> bool" where
  "grown g g' = (queue g' = queue g \<and> (\<forall>m. states g m \<noteq> None \<longrightarrow> states g' m \<noteq> None))"

definition storesOk :: "'m matcher_ops \<Rightarrow> 'm factory \<Rightarrow> 'm decl set \<Rightarrow> 'm factory \<Rightarrow> 'm decl \<Rightarrow> bool" where
  "storesOk U F D g d =
     (\<exists>st g'. registerState U g d = (Inr (Some st), g') \<and> within U F D g' \<and> grown g g' \<and>
        states g' (nm d) \<noteq> None \<and>
        (\<forall>m. newly g g' m \<longrightarrow> m = nm d \<or> (\<exists>e. waiting g e \<and> nm e = m)) \<and>
        drained g g')"

definition drainsOk :: "'m matcher_ops \<Rightarrow> 'm factory \<Rightarrow> 'm decl set \<Rightarrow> 'm factory \<Rightarrow> 'm decl list \<Rightarrow> bool" where
  "drainsOk U F D g cs =
     (\<exists>g'. registerQueued U g cs = (None, g') \<and> within U F D g' \<and> grown g g' \<and>
        (\<forall>c \<in> set cs. states g' (nm c) \<noteq> None) \<and>
        (\<forall>m. newly g g' m \<longrightarrow> (\<exists>e. (e \<in> set cs \<or> waiting g e) \<and> nm e = m)) \<and>
        drained g g')"

lemma queued_states_update [simp]: "queued (g\<lparr>states := s\<rparr>) k = queued g k"
  by (simp add: queued_def)

lemma queued_cong: "queue g' = queue g \<Longrightarrow> queued g' k = queued g k"
  by (simp add: queued_def)

lemma storesOk_step:
  assumes T: "target U F D" and W: "within U F D g" and d: "d \<in> D"
    and fresh: "states g (nm d) = None"
    and av: "pn d = [] \<or> states g (pn d) \<noteq> None"
    and b: "buildState U g d (nm d) = Inr st"
    and Q: "drainsOk U F D (g\<lparr>states := (states g)(nm d \<mapsto> st)\<rparr>) (queued g (nm d))"
  shows "storesOk U F D g d"
proof -
  let ?n = "nm d"
  let ?g1 = "g\<lparr>states := (states g)(?n \<mapsto> st)\<rparr>"
  from T d have dn: "d_name d = Some ?n" and at: "CHR ''@'' \<notin> set ?n"
    unfolding target_def by blast+
  from Q obtain g' where rq: "registerQueued U ?g1 (queued g ?n) = (None, g')"
    and W': "within U F D g'" and gr: "grown ?g1 g'"
    and reg: "\<forall>c \<in> set (queued g ?n). states g' (nm c) \<noteq> None"
    and fr: "\<forall>m. newly ?g1 g' m \<longrightarrow> (\<exists>e. (e \<in> set (queued g ?n) \<or> waiting ?g1 e) \<and> nm e = m)"
    and dr: "drained ?g1 g'"
    unfolding drainsOk_def by (elim exE conjE)
  have nq: "\<not> (parentName d ?n \<noteq> [] \<and> states g (parentName d ?n) = None)"
    using av by (auto simp: pn_def)
  have r: "registerState U g d = (Inr (Some st), g')"
    using dn at fresh nq b rq by (simp add: registerState.simps)
  from gr have qq: "queue g' = queue g" and mono1: "\<forall>m. states ?g1 m \<noteq> None \<longrightarrow> states g' m \<noteq> None"
    unfolding grown_def by simp_all
  have g: "grown g g'" unfolding grown_def using qq mono1 by auto
  have n': "states g' ?n \<noteq> None" using mono1 by simp
  have frame: "m = ?n \<or> (\<exists>e. waiting g e \<and> nm e = m)" if "newly g g' m" for m
  proof (cases "m = ?n")
    case True
    then show ?thesis by simp
  next
    case False
    with that have "newly ?g1 g' m" by (simp add: newly_def)
    with fr obtain e where e: "e \<in> set (queued g ?n) \<or> waiting ?g1 e" and m: "nm e = m" by blast
    from e have "waiting g e"
    proof
      assume "e \<in> set (queued g ?n)"
      with fresh show ?thesis unfolding waiting_def by blast
    next
      assume "waiting ?g1 e"
      then obtain k where "e \<in> set (queued g k)" and "states ?g1 k = None"
        unfolding waiting_def by auto
      moreover then have "states g k = None" by (auto split: if_splits)
      ultimately show ?thesis unfolding waiting_def by blast
    qed
    with m show ?thesis by blast
  qed
  have d': "drained g g'"
    unfolding drained_def
  proof (intro allI impI ballI)
    fix m c assume m: "newly g g' m" and c: "c \<in> set (queued g' m)"
    show "states g' (nm c) \<noteq> None"
    proof (cases "m = ?n")
      case True
      with c queued_cong [OF qq, of ?n] have "c \<in> set (queued g ?n)" by simp
      with reg show ?thesis by blast
    next
      case False
      with m have "newly ?g1 g' m" by (simp add: newly_def)
      with dr c show ?thesis unfolding drained_def by blast
    qed
  qed
  from frame have fr': "\<forall>m. newly g g' m \<longrightarrow> m = nm d \<or> (\<exists>e. waiting g e \<and> nm e = m)"
    by simp
  show ?thesis
    unfolding storesOk_def
  proof (intro exI conjI)
    show "registerState U g d = (Inr (Some st), g')" by (rule r)
    show "within U F D g'" by (rule W')
    show "grown g g'" by (rule g)
    show "states g' (nm d) \<noteq> None" by (rule n')
    show "\<forall>m. newly g g' m \<longrightarrow> m = nm d \<or> (\<exists>e. waiting g e \<and> nm e = m)" by (rule fr')
    show "drained g g'" by (rule d')
  qed
qed

lemma drainsOk_Nil: "within U F D g \<Longrightarrow> drainsOk U F D g []"
  by (auto simp: drainsOk_def grown_def newly_def drained_def)

lemma drainsOk_Cons:
  assumes T: "target U F D" and W: "within U F D g"
    and pre: "\<forall>x \<in> set (c # cs). x \<in> D \<and> states g (nm x) = None \<and> states g (pn x) \<noteq> None"
    and dist: "distinct (c # cs)"
    and R: "storesOk U F D g c"
    and IH: "\<And>st g'. registerState U g c = (Inr (Some st), g') \<Longrightarrow> within U F D g' \<Longrightarrow>
               \<forall>x \<in> set cs. x \<in> D \<and> states g' (nm x) = None \<and> states g' (pn x) \<noteq> None \<Longrightarrow>
               drainsOk U F D g' cs"
  shows "drainsOk U F D g (c # cs)"
proof -
  from R obtain st g' where r: "registerState U g c = (Inr (Some st), g')"
    and W': "within U F D g'" and gr: "grown g g'" and nc: "states g' (nm c) \<noteq> None"
    and fr: "\<forall>m. newly g g' m \<longrightarrow> m = nm c \<or> (\<exists>e. waiting g e \<and> nm e = m)"
    and dr: "drained g g'"
    unfolding storesOk_def by (elim exE conjE)
  from gr have qq: "queue g' = queue g" and mono: "\<forall>m. states g m \<noteq> None \<longrightarrow> states g' m \<noteq> None"
    unfolding grown_def by simp_all
  from T have uniq: "\<forall>d \<in> D. \<forall>e \<in> D. nm d = nm e \<longrightarrow> d = e" unfolding target_def by simp
  from W have q: "\<forall>k e. e \<in> set (queued g k) \<longrightarrow> e \<in> D \<and> pn e = k \<and> k \<noteq> []"
    unfolding within_def by simp
  from pre have cD: "c \<in> D" by simp
  have pre': "\<forall>x \<in> set cs. x \<in> D \<and> states g' (nm x) = None \<and> states g' (pn x) \<noteq> None"
  proof
    fix x assume x: "x \<in> set cs"
    with pre have xD: "x \<in> D" and xn: "states g (nm x) = None" and xp: "states g (pn x) \<noteq> None"
      by simp_all
    from x dist have xc: "x \<noteq> c" by auto
    have "states g' (nm x) = None"
    proof (rule ccontr)
      assume "states g' (nm x) \<noteq> None"
      with xn have "newly g g' (nm x)" by (simp add: newly_def)
      with fr have "nm x = nm c \<or> (\<exists>e. waiting g e \<and> nm e = nm x)" by simp
      then show False
      proof
        assume "nm x = nm c"
        with uniq xD cD have "x = c" by simp
        with xc show False by simp
      next
        assume "\<exists>e. waiting g e \<and> nm e = nm x"
        then obtain e k where e: "e \<in> set (queued g k)" and k: "states g k = None" and n: "nm e = nm x"
          unfolding waiting_def by (elim exE conjE)
        from q e have eD: "e \<in> D" and pe: "pn e = k" by simp_all
        from uniq eD xD n have "e = x" by simp
        with pe k xp show False by simp
      qed
    qed
    moreover from mono xp have "states g' (pn x) \<noteq> None" by simp
    ultimately show "x \<in> D \<and> states g' (nm x) = None \<and> states g' (pn x) \<noteq> None"
      using xD by simp
  qed
  from IH [OF r W' pre'] obtain g'' where rq: "registerQueued U g' cs = (None, g'')"
    and W'': "within U F D g''" and gr': "grown g' g''"
    and reg: "\<forall>x \<in> set cs. states g'' (nm x) \<noteq> None"
    and fr': "\<forall>m. newly g' g'' m \<longrightarrow> (\<exists>e. (e \<in> set cs \<or> waiting g' e) \<and> nm e = m)"
    and dr': "drained g' g''"
    unfolding drainsOk_def by (elim exE conjE)
  from gr' have qq': "queue g'' = queue g'" and mono': "\<forall>m. states g' m \<noteq> None \<longrightarrow> states g'' m \<noteq> None"
    unfolding grown_def by simp_all
  have 1: "registerQueued U g (c # cs) = (None, g'')" using r rq by simp
  have 2: "grown g g''" unfolding grown_def using qq qq' mono mono' by simp
  have 3: "\<forall>x \<in> set (c # cs). states g'' (nm x) \<noteq> None" using reg nc mono' by simp
  have 4: "\<forall>m. newly g g'' m \<longrightarrow> (\<exists>e. (e \<in> set (c # cs) \<or> waiting g e) \<and> nm e = m)"
  proof (intro allI impI)
    fix m assume m: "newly g g'' m"
    show "\<exists>e. (e \<in> set (c # cs) \<or> waiting g e) \<and> nm e = m"
    proof (cases "states g' m = None")
      case False
      with m have "newly g g' m" by (simp add: newly_def)
      with fr have "m = nm c \<or> (\<exists>e. waiting g e \<and> nm e = m)" by simp
      then show ?thesis
      proof
        assume "m = nm c"
        then have "(c \<in> set (c # cs) \<or> waiting g c) \<and> nm c = m" by simp
        then show ?thesis by (rule exI)
      next
        assume "\<exists>e. waiting g e \<and> nm e = m"
        then obtain e where "waiting g e" "nm e = m" by (elim exE conjE)
        then have "(e \<in> set (c # cs) \<or> waiting g e) \<and> nm e = m" by simp
        then show ?thesis by (rule exI)
      qed
    next
      case True
      with m have "newly g' g'' m" by (simp add: newly_def)
      with fr' obtain e where e: "e \<in> set cs \<or> waiting g' e" and n: "nm e = m" by (elim allE impE exE conjE)
      from e have "e \<in> set (c # cs) \<or> waiting g e"
      proof
        assume "e \<in> set cs"
        then show ?thesis by simp
      next
        assume "waiting g' e"
        then obtain k where k: "e \<in> set (queued g' k)" "states g' k = None"
          unfolding waiting_def by (elim exE conjE)
        with queued_cong [OF qq, of k] mono have "e \<in> set (queued g k)" "states g k = None"
          by auto
        then have "waiting g e" unfolding waiting_def by (intro exI conjI)
        then show ?thesis by simp
      qed
      with n have "(e \<in> set (c # cs) \<or> waiting g e) \<and> nm e = m" by simp
      then show ?thesis by (rule exI)
    qed
  qed
  have 5: "drained g g''"
    unfolding drained_def
  proof (intro allI impI ballI)
    fix m x assume m: "newly g g'' m" and x: "x \<in> set (queued g'' m)"
    show "states g'' (nm x) \<noteq> None"
    proof (cases "states g' m = None")
      case False
      with m have n: "newly g g' m" by (simp add: newly_def)
      from x queued_cong [OF qq', of m] have "x \<in> set (queued g' m)" by simp
      with dr n have "states g' (nm x) \<noteq> None" unfolding drained_def by simp
      with mono' show ?thesis by simp
    next
      case True
      with m have "newly g' g'' m" by (simp add: newly_def)
      with dr' x show ?thesis unfolding drained_def by simp
    qed
  qed
  show ?thesis
    unfolding drainsOk_def
  proof (intro exI conjI)
    show "registerQueued U g (c # cs) = (None, g'')" by (rule 1)
    show "within U F D g''" by (rule W'')
    show "grown g g''" by (rule 2)
    show "\<forall>x \<in> set (c # cs). states g'' (nm x) \<noteq> None" by (rule 3)
    show "\<forall>m. newly g g'' m \<longrightarrow> (\<exists>e. (e \<in> set (c # cs) \<or> waiting g e) \<and> nm e = m)" by (rule 4)
    show "drained g g''" by (rule 5)
  qed
qed

lemma drain_ok:
  "target U F D \<Longrightarrow> within U F D g \<Longrightarrow> d \<in> D \<Longrightarrow> states g (nm d) = None \<Longrightarrow>
     pn d = [] \<or> states g (pn d) \<noteq> None \<Longrightarrow> storesOk U F D g d"
  "target U F D \<Longrightarrow> within U F D g \<Longrightarrow>
     \<forall>x \<in> set cs. x \<in> D \<and> states g (nm x) = None \<and> states g (pn x) \<noteq> None \<Longrightarrow>
     distinct cs \<Longrightarrow> drainsOk U F D g cs"
proof (induction U g d and U g cs rule: registerState_registerQueued.induct)
  case (1 U g d)
  note T = "1.prems"(1) and W = "1.prems"(2) and d = "1.prems"(3)
    and fresh = "1.prems"(4) and av = "1.prems"(5)
  let ?n = "nm d"
  let ?g1 = "\<lambda>st. g\<lparr>states := (states g)(?n \<mapsto> st)\<rparr>"
  from T d have dn: "d_name d = Some ?n" and at: "CHR ''@'' \<notin> set ?n"
    and uniq: "\<forall>e \<in> D. nm d = nm e \<longrightarrow> d = e"
    unfolding target_def by blast+
  from within_build [OF T W d av] obtain st where b: "buildState U g d ?n = Inr st" by blast
  have nf: "\<not> states g ?n \<noteq> None" using fresh by simp
  have nq: "\<not> (parentName d ?n \<noteq> [] \<and> states g (parentName d ?n) = None)"
    using av by (auto simp: pn_def)
  from W have q: "\<forall>k e. e \<in> set (queued g k) \<longrightarrow> e \<in> D \<and> pn e = k \<and> k \<noteq> []"
    and dq: "distinct (queued g ?n)"
    and par: "\<forall>e \<in> D. states g (nm e) \<noteq> None \<longrightarrow> pn e = [] \<or> states g (pn e) \<noteq> None"
    unfolding within_def by simp_all
  have W1: "within U F D (?g1 st)" by (rule within_store [OF T W d fresh av b])
  have pre: "\<forall>x \<in> set (queued g ?n).
      x \<in> D \<and> states (?g1 st) (nm x) = None \<and> states (?g1 st) (pn x) \<noteq> None"
  proof
    fix x assume x: "x \<in> set (queued g ?n)"
    with q have xD: "x \<in> D" and px: "pn x = ?n" and n0: "?n \<noteq> []" by simp_all
    have "nm x \<noteq> ?n"
    proof
      assume e: "nm x = ?n"
      with uniq xD have "d = x" by simp
      with px av n0 fresh show False by auto
    qed
    moreover have "states g (nm x) = None"
    proof (rule ccontr)
      assume "states g (nm x) \<noteq> None"
      with par xD have "pn x = [] \<or> states g (pn x) \<noteq> None" by simp
      with px n0 fresh show False by simp
    qed
    ultimately show "x \<in> D \<and> states (?g1 st) (nm x) = None \<and> states (?g1 st) (pn x) \<noteq> None"
      using xD px by simp
  qed
  have "drainsOk U F D (?g1 st) (queued g ?n)"
    by (rule "1.IH" [OF dn at nf nq b T W1 pre dq])
  with T W d fresh av b show ?case by (rule storesOk_step)
next
  case (2 U g)
  then show ?case by (simp add: drainsOk_Nil)
next
  case (3 U g c cs)
  note T = "3.prems"(1) and W = "3.prems"(2) and pre = "3.prems"(3) and dist = "3.prems"(4)
  from pre have cD: "c \<in> D" and cn: "states g (nm c) = None" and cp: "states g (pn c) \<noteq> None"
    by simp_all
  have R: "storesOk U F D g c"
    using T W cD cn by (rule "3.IH"(1)) (simp add: cp)
  from dist have dcs: "distinct cs" by simp
  show ?case
    using T W pre dist R
  proof (rule drainsOk_Cons)
    fix st g'
    assume r: "registerState U g c = (Inr (Some st), g')" and W': "within U F D g'"
      and pre': "\<forall>x \<in> set cs. x \<in> D \<and> states g' (nm x) = None \<and> states g' (pn x) \<noteq> None"
    show "drainsOk U F D g' cs"
      by (rule "3.IH"(2) [OF r [symmetric] refl T W' pre' dcs])
  qed
qed

text \<open>
  At the top level: a declaration is \<open>settled\<close> when it is registered or waits for a parent
  that is not registered; a factory is \<open>tidy\<close> when nothing registered has a child waiting.
\<close>

definition settled :: "'m factory \<Rightarrow> 'm decl \<Rightarrow> bool" where
  "settled g d = (states g (nm d) \<noteq> None \<or> waiting g d)"

definition tidy :: "'m factory \<Rightarrow> bool" where
  "tidy g = (\<forall>k. states g k \<noteq> None \<longrightarrow> (\<forall>c \<in> set (queued g k). states g (nm c) \<noteq> None))"

definition untouched :: "'m factory \<Rightarrow> 'm decl \<Rightarrow> bool" where
  "untouched g d = (states g (nm d) = None \<and> (\<forall>k. d \<notin> set (queued g k)))"

lemma queued_queueState_eq:
  "queued (queueState g k d) k' = (if k' = k then queued g k @ [d] else queued g k')"
  by (simp add: queued_def queueState_def update_conv')

lemma top_step:
  assumes T: "target U F D" and W: "within U F D g" and ti: "tidy g" and d: "d \<in> D"
    and un: "untouched g d"
  shows "\<exists>r g'. registerState U g d = (Inr r, g') \<and> within U F D g' \<and> tidy g' \<and> settled g' d \<and>
           (\<forall>e. settled g e \<longrightarrow> settled g' e) \<and>
           (\<forall>e \<in> D. e \<noteq> d \<longrightarrow> untouched g e \<longrightarrow> untouched g' e)"
proof (cases "pn d \<noteq> [] \<and> states g (pn d) = None")
  case True
  let ?g' = "queueState g (pn d) d"
  from T d have dn: "d_name d = Some (nm d)" and at: "CHR ''@'' \<notin> set (nm d)"
    unfolding target_def by blast+
  from un have fresh: "states g (nm d) = None" and nq: "d \<notin> set (queued g (pn d))"
    unfolding untouched_def by simp_all
  have r: "registerState U g d = (Inr None, ?g')"
    using dn at fresh True by (simp add: registerState.simps pn_def)
  have W': "within U F D ?g'"
    using W d True nq unfolding within_def
    by (auto simp: queued_queueState_eq closed_def)
  have ti': "tidy ?g'"
    using ti True unfolding tidy_def by (auto simp: queued_queueState_eq)
  have s: "settled ?g' d"
    using True unfolding settled_def waiting_def by (auto simp: queued_queueState_eq)
  have sub: "e \<in> set (queued g k) \<Longrightarrow> e \<in> set (queued ?g' k)" for e k
    by (auto simp: queued_queueState_eq)
  have m: "\<forall>e. settled g e \<longrightarrow> settled ?g' e"
  proof (intro allI impI)
    fix e assume "settled g e"
    then consider "states g (nm e) \<noteq> None" | k where "e \<in> set (queued g k)" "states g k = None"
      unfolding settled_def waiting_def by auto
    then show "settled ?g' e"
    proof cases
      case 1
      then show ?thesis unfolding settled_def by simp
    next
      case 2
      with sub [of e k] have "waiting ?g' e" unfolding waiting_def by auto
      then show ?thesis unfolding settled_def by simp
    qed
  qed
  have u: "\<forall>e \<in> D. e \<noteq> d \<longrightarrow> untouched g e \<longrightarrow> untouched ?g' e"
    unfolding untouched_def by (auto simp: queued_queueState_eq)
  show ?thesis
  proof (intro exI conjI)
    show "registerState U g d = (Inr None, ?g')" by (rule r)
  qed (rule W' ti' s m u)+
next
  case False
  then have av: "pn d = [] \<or> states g (pn d) \<noteq> None" by auto
  from un have fresh: "states g (nm d) = None" unfolding untouched_def by simp
  from T have uniq: "\<forall>d \<in> D. \<forall>e \<in> D. nm d = nm e \<longrightarrow> d = e" unfolding target_def by simp
  from W have q: "\<forall>k e. e \<in> set (queued g k) \<longrightarrow> e \<in> D \<and> pn e = k \<and> k \<noteq> []"
    unfolding within_def by simp
  from drain_ok(1) [OF T W d fresh av] obtain st g' where
    r: "registerState U g d = (Inr (Some st), g')"
    and W': "within U F D g'" and gr: "grown g g'" and nd: "states g' (nm d) \<noteq> None"
    and fr: "\<forall>m. newly g g' m \<longrightarrow> m = nm d \<or> (\<exists>e. waiting g e \<and> nm e = m)"
    and dr: "drained g g'"
    unfolding storesOk_def by (elim exE conjE)
  from gr have qq: "queue g' = queue g" and mono: "\<forall>m. states g m \<noteq> None \<longrightarrow> states g' m \<noteq> None"
    unfolding grown_def by simp_all
  have qe: "queued g' k = queued g k" for k by (rule queued_cong [OF qq])
  have ti': "tidy g'"
    unfolding tidy_def
  proof (intro allI impI ballI)
    fix k c assume k: "states g' k \<noteq> None" and c: "c \<in> set (queued g' k)"
    show "states g' (nm c) \<noteq> None"
    proof (cases "states g k = None")
      case True
      with k have "newly g g' k" by (simp add: newly_def)
      with dr c show ?thesis unfolding drained_def by simp
    next
      case False
      with ti c qe have "states g (nm c) \<noteq> None" unfolding tidy_def by simp
      with mono show ?thesis by simp
    qed
  qed
  have s: "settled g' d" using nd unfolding settled_def by simp
  have m: "\<forall>e. settled g e \<longrightarrow> settled g' e"
  proof (intro allI impI)
    fix e assume "settled g e"
    then consider "states g (nm e) \<noteq> None" | k where "e \<in> set (queued g k)" "states g k = None"
      unfolding settled_def waiting_def by auto
    then show "settled g' e"
    proof cases
      case 1
      with mono show ?thesis unfolding settled_def by simp
    next
      case 2
      show ?thesis
      proof (cases "states g' k = None")
        case True
        with 2 qe have "waiting g' e" unfolding waiting_def by auto
        then show ?thesis unfolding settled_def by simp
      next
        case False
        with 2 have "newly g g' k" by (simp add: newly_def)
        with dr 2 qe have "states g' (nm e) \<noteq> None" unfolding drained_def by simp
        then show ?thesis unfolding settled_def by simp
      qed
    qed
  qed
  have u: "\<forall>e \<in> D. e \<noteq> d \<longrightarrow> untouched g e \<longrightarrow> untouched g' e"
  proof (intro ballI impI)
    fix e assume eD: "e \<in> D" and ed: "e \<noteq> d" and ue: "untouched g e"
    have "states g' (nm e) = None"
    proof (rule ccontr)
      assume "states g' (nm e) \<noteq> None"
      with ue have "newly g g' (nm e)" unfolding untouched_def newly_def by simp
      with fr have "nm e = nm d \<or> (\<exists>x. waiting g x \<and> nm x = nm e)" by simp
      then show False
      proof
        assume "nm e = nm d"
        with uniq eD d ed show False by simp
      next
        assume "\<exists>x. waiting g x \<and> nm x = nm e"
        then obtain x k where x: "x \<in> set (queued g k)" and n: "nm x = nm e"
          unfolding waiting_def by (elim exE conjE)
        from q x have "x \<in> D" by simp
        with uniq eD n have "x = e" by simp
        with x ue show False unfolding untouched_def by simp
      qed
    qed
    with ue qe show "untouched g' e" unfolding untouched_def by simp
  qed
  show ?thesis
  proof (intro exI conjI)
    show "registerState U g d = (Inr (Some st), g')" by (rule r)
  qed (rule W' ti' s m u)+
qed

lemma run_ok:
  assumes T: "target U F D"
  shows "within U F D g \<Longrightarrow> tidy g \<Longrightarrow> set ds \<subseteq> D \<Longrightarrow> distinct ds \<Longrightarrow>
         \<forall>d \<in> set ds. untouched g d \<Longrightarrow>
         \<exists>g'. registerAll U g ds = (None, g') \<and> within U F D g' \<and> tidy g' \<and>
              (\<forall>d \<in> set ds. settled g' d) \<and> (\<forall>e. settled g e \<longrightarrow> settled g' e)"
proof (induction ds arbitrary: g)
  case Nil
  then show ?case by simp
next
  case (Cons d ds)
  from Cons.prems have dD: "d \<in> D" and un: "untouched g d" by simp_all
  from top_step [OF T Cons.prems(1,2) dD un] obtain r g' where
    r: "registerState U g d = (Inr r, g')" and W': "within U F D g'" and ti': "tidy g'"
    and sd: "settled g' d" and m: "\<forall>e. settled g e \<longrightarrow> settled g' e"
    and u: "\<forall>e \<in> D. e \<noteq> d \<longrightarrow> untouched g e \<longrightarrow> untouched g' e"
    by (elim exE conjE)
  have sub: "set ds \<subseteq> D" and dist: "distinct ds" using Cons.prems by simp_all
  have un': "\<forall>e \<in> set ds. untouched g' e"
  proof
    fix e assume e: "e \<in> set ds"
    with Cons.prems have "e \<in> D" "e \<noteq> d" "untouched g e" by auto
    with u show "untouched g' e" by simp
  qed
  from Cons.IH [OF W' ti' sub dist un'] obtain g'' where
    ra: "registerAll U g' ds = (None, g'')" and W'': "within U F D g''" and ti'': "tidy g''"
    and ss: "\<forall>d \<in> set ds. settled g'' d" and m': "\<forall>e. settled g' e \<longrightarrow> settled g'' e"
    by (elim exE conjE)
  have 1: "registerAll U g (d # ds) = (None, g'')" using r ra by simp
  have 2: "\<forall>x \<in> set (d # ds). settled g'' x" using ss sd m' by simp
  have 3: "\<forall>e. settled g e \<longrightarrow> settled g'' e" using m m' by simp
  show ?case
  proof (intro exI conjI)
    show "registerAll U g (d # ds) = (None, g'')" by (rule 1)
  qed (rule W'' ti'' 2 3)+
qed

text \<open>A list in which every declaration comes after its parent (\<open>A\<close>: the names already there).\<close>

fun parentFirst :: "string set \<Rightarrow> 'm decl list \<Rightarrow> bool" where
  "parentFirst A [] = True"
| "parentFirst A (d # ds) = (pn d \<in> A \<and> parentFirst (insert (nm d) A) ds)"

lemma all_registered:
  assumes q: "\<forall>k e. e \<in> set (queued g k) \<longrightarrow> pn e = k"
  shows "parentFirst A ds \<Longrightarrow> \<forall>a \<in> A. states g a \<noteq> None \<Longrightarrow> \<forall>d \<in> set ds. settled g d \<Longrightarrow>
         \<forall>d \<in> set ds. states g (nm d) \<noteq> None"
proof (induction ds arbitrary: A)
  case Nil
  then show ?case by simp
next
  case (Cons d ds)
  from Cons.prems have p: "states g (pn d) \<noteq> None" and s: "settled g d" by simp_all
  have d: "states g (nm d) \<noteq> None"
  proof (rule ccontr)
    assume "\<not> states g (nm d) \<noteq> None"
    with s obtain k where k: "d \<in> set (queued g k)" "states g k = None"
      unfolding settled_def waiting_def by auto
    with q have "pn d = k" by simp
    with k p show False by simp
  qed
  have "\<forall>x \<in> set ds. states g (nm x) \<noteq> None"
  proof (rule Cons.IH)
    show "parentFirst (insert (nm d) A) ds" using Cons.prems(1) by simp
    show "\<forall>a \<in> insert (nm d) A. states g a \<noteq> None" using Cons.prems(2) d by simp
    show "\<forall>x \<in> set ds. settled g x" using Cons.prems(3) by simp
  qed
  with d show ?case by simp
qed

text \<open>Registering in an order in which every call stores a record: nothing is queued.\<close>

fun direct :: "'m matcher_ops \<Rightarrow> 'm factory \<Rightarrow> 'm decl list \<Rightarrow> 'm factory option" where
  "direct U f [] = Some f"
| "direct U f (d # ds) =
     (case registerState U f d of
        (Inr (Some st), f') \<Rightarrow> direct U f' ds
      | (Inr None, f') \<Rightarrow> None
      | (Inl e, f') \<Rightarrow> None)"

lemma direct_step:
  assumes q: "queue f = []" and r: "registerState U f d = (Inr (Some st), f')"
  shows "d_name d = Some (nm d) \<and> CHR ''@'' \<notin> set (nm d) \<and> states f (nm d) = None \<and>
         (pn d = [] \<or> states f (pn d) \<noteq> None) \<and> buildState U f d (nm d) = Inr st \<and>
         f' = f\<lparr>states := (states f)(nm d \<mapsto> st)\<rparr>"
proof (cases "d_name d")
  case None
  with r show ?thesis by (simp add: registerState.simps)
next
  case (Some n)
  then have n: "nm d = n" by (simp add: nm_def)
  from q have e: "queued f n = []" by (simp add: queued_def)
  from r Some e show ?thesis
    unfolding n pn_def n
    by (auto simp: registerState.simps split: if_splits sum.splits)
qed

lemma parent_found:
  assumes b: "buildState U f d n = Inr st" and c: "lookupName d n = k"
    and r: "rootRecord f \<noteq> None" and av: "k = [] \<or> states f k \<noteq> None"
  shows "\<exists>pr. stateBuilder_parent f d n = Inr (Some pr)"
proof -
  from buildState_fields [OF b] obtain p where p: "stateBuilder_parent f d n = Inr p" by blast
  show ?thesis
  proof (cases "k = []")
    case True
    with c r show ?thesis by (auto simp: stateBuilder_parent_lookup)
  next
    case False
    with p c have "\<not> isRelative k"
      by (auto simp: stateBuilder_parent_lookup findState_name split: if_splits)
    with False c av show ?thesis by (auto simp: stateBuilder_parent_lookup findState_name)
  qed
qed

definition directFacts :: "'m matcher_ops \<Rightarrow> 'm factory \<Rightarrow> 'm decl list \<Rightarrow> 'm factory \<Rightarrow> bool" where
  "directFacts U f ds F =
     (states f \<subseteq>\<^sub>m states F \<and> root F = Some [] \<and> closed F \<and>
      dom (states F) = dom (states f) \<union> nm ` set ds \<and>
      distinct (map nm ds) \<and> (\<forall>d \<in> set ds. states f (nm d) = None) \<and>
      parentFirst (dom (states f)) ds \<and>
      (\<forall>d \<in> set ds. d_name d = Some (nm d) \<and> CHR ''@'' \<notin> set (nm d) \<and>
          (\<exists>st. states F (nm d) = Some st \<and> buildState U F d (nm d) = Inr st) \<and>
          (pn d = [] \<or> states F (pn d) \<noteq> None)))"

lemma direct_facts:
  assumes cons: "\<forall>d \<in> set ds. consistent d"
  shows "root f = Some [] \<Longrightarrow> states f [] = Some (rootState U) \<Longrightarrow> closed f \<Longrightarrow> queue f = [] \<Longrightarrow>
         direct U f ds = Some F \<Longrightarrow> directFacts U f ds F"
  using cons
proof (induction ds arbitrary: f)
  case Nil
  then show ?case by (simp add: directFacts_def)
next
  case (Cons d ds)
  note rt = Cons.prems(1) and r0 = Cons.prems(2) and cl = Cons.prems(3) and q = Cons.prems(4)
  from Cons.prems(5) obtain st f' where r: "registerState U f d = (Inr (Some st), f')"
    and dir: "direct U f' ds = Some F"
    by (auto split: prod.splits sum.splits option.splits)
  from direct_step [OF q r] have dn: "d_name d = Some (nm d)" and at: "CHR ''@'' \<notin> set (nm d)"
    and fresh: "states f (nm d) = None" and av: "pn d = [] \<or> states f (pn d) \<noteq> None"
    and b: "buildState U f d (nm d) = Inr st"
    and f': "f' = f\<lparr>states := (states f)(nm d \<mapsto> st)\<rparr>"
    by simp_all
  from fresh r0 have n0: "nm d \<noteq> []" by auto
  have rt': "root f' = Some []" using rt f' by simp
  have r0': "states f' [] = Some (rootState U)" using r0 n0 f' by simp
  have cl': "closed f'" unfolding f' by (rule closed_store [OF cl fresh b])
  have q': "queue f' = []" using q f' by simp
  from Cons.prems(6) have cons': "\<forall>d \<in> set ds. consistent d" and cd: "consistent d" by simp_all
  from Cons.IH [OF rt' r0' cl' q' dir cons']
  have le': "states f' \<subseteq>\<^sub>m states F" and rF: "root F = Some []" and cF: "closed F"
    and domF: "dom (states F) = dom (states f') \<union> nm ` set ds"
    and dist: "distinct (map nm ds)" and fr: "\<forall>e \<in> set ds. states f' (nm e) = None"
    and pf: "parentFirst (dom (states f')) ds"
    and all: "\<forall>e \<in> set ds. d_name e = Some (nm e) \<and> CHR ''@'' \<notin> set (nm e) \<and>
          (\<exists>st. states F (nm e) = Some st \<and> buildState U F e (nm e) = Inr st) \<and>
          (pn e = [] \<or> states F (pn e) \<noteq> None)"
    unfolding directFacts_def by simp_all
  have ff': "states f \<subseteq>\<^sub>m states f'" using fresh f' by (auto simp: map_le_def)
  have le: "states f \<subseteq>\<^sub>m states F" by (rule map_le_trans [OF ff' le'])
  have domf': "dom (states f') = insert (nm d) (dom (states f))" using f' by auto
  have 1: "dom (states F) = dom (states f) \<union> nm ` set (d # ds)" using domF domf' by auto
  have nd: "nm d \<notin> nm ` set ds"
  proof
    assume "nm d \<in> nm ` set ds"
    then obtain e where "e \<in> set ds" "nm e = nm d" by auto
    with fr have "states f' (nm d) = None" by auto
    with f' show False by simp
  qed
  have 2: "distinct (map nm (d # ds))" using dist nd by simp
  have 3: "\<forall>e \<in> set (d # ds). states f (nm e) = None"
  proof
    fix e assume "e \<in> set (d # ds)"
    then have "e = d \<or> e \<in> set ds" by simp
    then show "states f (nm e) = None"
    proof
      assume "e = d" with fresh show ?thesis by simp
    next
      assume "e \<in> set ds"
      with fr have "states f' (nm e) = None" by simp
      with f' show ?thesis by (auto split: if_splits)
    qed
  qed
  have "pn d \<in> dom (states f)" using av r0 by auto
  with pf domf' have 4: "parentFirst (dom (states f)) (d # ds)" by simp
  have rr: "rootRecord f \<noteq> None" using rt r0 by (simp add: rootRecord_def)
  from cd have lk: "lookupName d (nm d) = pn d" by (simp add: consistent_def)
  from parent_found [OF b lk rr av] obtain pr where p: "stateBuilder_parent f d (nm d) = Inr (Some pr)"
    by blast
  from buildState_mono [OF le _ rr cl p, of U] rt rF
  have bF: "buildState U F d (nm d) = Inr st" using b by simp
  from le' f' have sF: "states F (nm d) = Some st" by (auto simp: map_le_def)
  have pF: "pn d = [] \<or> states F (pn d) \<noteq> None"
  proof (cases "pn d = []")
    case False
    with av obtain x where "states f (pn d) = Some x" by auto
    with le have "states F (pn d) = Some x" by (auto simp: map_le_def dom_def)
    then show ?thesis by simp
  qed simp
  have 5: "\<forall>e \<in> set (d # ds). d_name e = Some (nm e) \<and> CHR ''@'' \<notin> set (nm e) \<and>
          (\<exists>st. states F (nm e) = Some st \<and> buildState U F e (nm e) = Inr st) \<and>
          (pn e = [] \<or> states F (pn e) \<noteq> None)"
    using all dn at sF bF pF by simp
  from le rF cF 1 2 3 4 5 show ?case unfolding directFacts_def by simp
qed

lemma closed_newFactory: "closed (newFactory U)"
  by (auto simp: closed_def newFactory_def rootState_def split: if_splits)

text \<open>
  Order-independence, for consistent declarations: when registering the list \<open>ds\<close> stores a
  record at every call (parent first), registering any permutation of it from a new
  factory throws nothing and ends with the same records under the same names.
\<close>

theorem registration_order_independent:
  assumes dir: "direct U (newFactory U) ds = Some F"
    and cons: "\<forall>d \<in> set ds. consistent d"
    and perm: "mset ds' = mset ds"
  shows "\<exists>F'. registerAll U (newFactory U) ds' = (None, F') \<and> states F' = states F"
proof -
  let ?f = "newFactory U"
  let ?D = "set ds"
  have rt: "root ?f = Some []" and r0: "states ?f [] = Some (rootState U)"
    and q0: "queue ?f = []" and dom0: "dom (states ?f) = {[]}"
    by (auto simp: newFactory_def split: if_splits)
  from direct_facts [OF cons rt r0 closed_newFactory q0 dir]
  have le: "states ?f \<subseteq>\<^sub>m states F" and rF: "root F = Some []" and cF: "closed F"
    and domF: "dom (states F) = dom (states ?f) \<union> nm ` set ds"
    and dist: "distinct (map nm ds)" and fr: "\<forall>d \<in> set ds. states ?f (nm d) = None"
    and pf: "parentFirst (dom (states ?f)) ds"
    and all: "\<forall>e \<in> set ds. d_name e = Some (nm e) \<and> CHR ''@'' \<notin> set (nm e) \<and>
          (\<exists>st. states F (nm e) = Some st \<and> buildState U F e (nm e) = Inr st) \<and>
          (pn e = [] \<or> states F (pn e) \<noteq> None)"
    unfolding directFacts_def by simp_all
  from le r0 have r0F: "states F [] = Some (rootState U)" by (auto simp: map_le_def dom_def)
  have n0: "\<forall>d \<in> set ds. nm d \<noteq> []" using fr r0 by auto
  from dist have inj: "inj_on nm (set ds)" by (simp add: distinct_map)
  then have uniq: "\<forall>d \<in> ?D. \<forall>e \<in> ?D. nm d = nm e \<longrightarrow> d = e" by (auto dest: inj_onD)
  have T: "target U F ?D"
    unfolding target_def using rF r0F cF all n0 cons uniq by simp
  have W: "within U F ?D ?f"
    unfolding within_def using le rt r0 closed_newFactory fr q0
    by (simp add: queued_def)
  have ti: "tidy ?f" unfolding tidy_def using q0 by (simp add: queued_def)
  from perm have seq: "set ds' = set ds" by (rule mset_eq_setD)
  from dist have "distinct ds" by (simp add: distinct_map)
  with mset_eq_imp_distinct_iff [OF perm] have dd: "distinct ds'" by simp
  have un: "\<forall>d \<in> set ds'. untouched ?f d"
    unfolding untouched_def using fr seq q0 by (simp add: queued_def)
  from seq have sub: "set ds' \<subseteq> ?D" by simp
  from run_ok [OF T W ti sub dd un] obtain g where
    ra: "registerAll U ?f ds' = (None, g)" and Wg: "within U F ?D g" and tg: "tidy g"
    and st: "\<forall>d \<in> set ds'. settled g d"
    by (elim exE conjE)
  from Wg have leg: "states g \<subseteq>\<^sub>m states F" and g0: "states g [] = Some (rootState U)"
    and qg: "\<forall>k e. e \<in> set (queued g k) \<longrightarrow> pn e = k"
    unfolding within_def by simp_all
  have "\<forall>d \<in> set ds. states g (nm d) \<noteq> None"
  proof (rule all_registered [OF qg pf])
    show "\<forall>a \<in> dom (states ?f). states g a \<noteq> None" using dom0 g0 by simp
    show "\<forall>d \<in> set ds. settled g d" using st seq by simp
  qed
  with domF dom0 g0 have sup: "dom (states F) \<subseteq> dom (states g)" by auto
  have "states g = states F"
  proof
    fix m
    show "states g m = states F m"
    proof (cases "states F m")
      case None
      with leg show ?thesis by (auto simp: map_le_def dom_def)
    next
      case (Some x)
      with sup have "m \<in> dom (states g)" by auto
      with leg show ?thesis by (auto simp: map_le_def)
    qed
  qed
  with ra show ?thesis by simp
qed

lemma consistent_plain: "consistent (plain ''a'' :: string decl)" "consistent (plain ''a.b'' :: string decl)"
  "consistent (plain ''a.sibling'' :: string decl)"
  by (simp_all add: consistent_def lookupName_def pn_def nm_def plain_def parentName_def
      compositeName_def lineTerminator_def)

theorem registration_order_independent_example:
  "direct textMatcher (newFactory textMatcher) [plain ''a'', plain ''a.b'', plain ''a.sibling''] \<noteq> None \<and>
   fst (registerAll textMatcher (newFactory textMatcher) [plain ''a.sibling'', plain ''a.b'', plain ''a'']) = None \<and>
   states (after textMatcher [plain ''a.sibling'', plain ''a.b'', plain ''a'']) =
     states (the (direct textMatcher (newFactory textMatcher) [plain ''a'', plain ''a.b'', plain ''a.sibling'']))"
proof -
  let ?ds = "[plain ''a'', plain ''a.b'', plain ''a.sibling''] :: string decl list"
  let ?ds' = "[plain ''a.sibling'', plain ''a.b'', plain ''a''] :: string decl list"
  have "case direct textMatcher (newFactory textMatcher) ?ds of None \<Rightarrow> False | Some F \<Rightarrow> True"
    by code_simp
  then obtain F where F: "direct textMatcher (newFactory textMatcher) ?ds = Some F"
    by (auto split: option.splits)
  have c: "\<forall>d \<in> set ?ds. consistent d" using consistent_plain by simp
  have p: "mset ?ds' = mset ?ds" by (simp add: add.commute)
  from registration_order_independent [OF F c p] F show ?thesis
    by (auto simp: after_def)
qed

end
